theory Spec2Isabelle
  imports Main "HOL-Library.Sublist"
begin

section \<open>Commit history resolution of repo\_commit.go\<close>

text \<open>
  A shallow embedding of \<^verbatim>\<open>repo_commit.go\<close>: the memoizing commit store
  (\<^verbatim>\<open>getCommit\<close>), reference resolution (\<^verbatim>\<open>getCommitIdOfRef\<close>,
  \<^verbatim>\<open>getCommitIdOfPackedRef\<close>), the first-parent walk (\<^verbatim>\<open>CommitsBetween\<close>) and the
  chronological merge-list builder (\<^verbatim>\<open>commitsBefore\<close>).

  Go's \<^verbatim>\<open>(value, error)\<close> results are sums \<open>error + 'a\<close> with \<open>Inl\<close> the error. The
  repository handle is passed explicitly and returned updated wherever the Go code
  mutates \<^verbatim>\<open>repo.commitCache\<close>.
\<close>

subsection \<open>Errors\<close>

datatype error =
    ErrSha1TooShort
      \<comment> \<open>\<^verbatim>\<open>errors.New("sha1 hash too short")\<close>\<close>
  | ErrWrongSha1 string
      \<comment> \<open>\<^verbatim>\<open>fmt.Errorf("heads file wrong sha1 string %s", sha1)\<close>\<close>
  | ErrRefNotFoundInPackedRefs
      \<comment> \<open>\<^verbatim>\<open>errors.New("Ref not found in packed-refs")\<close>\<close>
  | ErrExternal nat
      \<comment> \<open>an error value handed over by a collaborator (file system, scanner, object
          store, commit decoder), told apart by a code\<close>
  | ErrIdNotExist
      \<comment> \<open>the error of \<^verbatim>\<open>ParentId\<close> for an index that is out of range\<close>
  | PanicNilPointer
      \<comment> \<open>the run-time panic of dereferencing a nil pointer\<close>

subsection \<open>Commits and the repository handle\<close>

text \<open>
  Modelled from the spec: the declarations of the types \<^verbatim>\<open>sha1\<close> and \<^verbatim>\<open>Commit\<close> are not
  part of \<^verbatim>\<open>repo_commit.go\<close>. The identifier type is a type parameter \<open>'sha1\<close>
  (the code only compares identifiers and uses them as map keys). A commit has its
  identifier, its ordered parent identifiers, the committer timestamp
  (\<^verbatim>\<open>Committer.When\<close>, an instant, here an integer count of time units) and its message.
  The back-reference \<^verbatim>\<open>commit.repo\<close> is not a field of the model: every function
  that follows it takes the repository handle as an argument.
\<close>

record 'sha1 Commit =
  commit_Id :: "'sha1"
  commit_parents :: "'sha1 list"
  Committer_When :: int
  CommitMessage :: string

definition ParentCount :: "'sha1 Commit \<Rightarrow> nat" where
  "ParentCount c = length (commit_parents c)"

text \<open>
  The events of the object store that \<^verbatim>\<open>getCommit\<close> causes, recorded in call order:
  the instrumentation that makes ``the fetch is performed once'' a statement about
  the model.
\<close>

datatype 'sha1 io_event =
    EvGetRawObject "'sha1"
  | EvReadAll "'sha1"
  | EvParseCommitData "'sha1"

text \<open>
  The handle. \<^verbatim>\<open>GetRawObject\<close> and \<^verbatim>\<open>parseCommitData\<close> are the external collaborators
  (object store and commit decoder); a successfully opened object carries what
  \<^verbatim>\<open>ioutil.ReadAll\<close> will return for it. \<^verbatim>\<open>commitCache\<close> is \<open>None\<close> for Go's nil map.
\<close>

record 'sha1 Repository =
  GetRawObject :: "'sha1 \<Rightarrow> error + (error + string)"
  parseCommitData :: "string \<Rightarrow> error + 'sha1 Commit"
  commitCache :: "('sha1 \<rightharpoonup> 'sha1 Commit) option"
  io_log :: "'sha1 io_event list"

definition log_io :: "'sha1 io_event \<Rightarrow> 'sha1 Repository \<Rightarrow> 'sha1 Repository" where
  "log_io ev repo = repo\<lparr>io_log := io_log repo @ [ev]\<rparr>"

text \<open>The entries of the cache: a nil map has none.\<close>

definition cache_entries :: "'sha1 Repository \<Rightarrow> ('sha1 \<rightharpoonup> 'sha1 Commit)" where
  "cache_entries repo = (case commitCache repo of None \<Rightarrow> Map.empty | Some m \<Rightarrow> m)"

subsection \<open>The commit store: getCommit\<close>

text \<open>
  Lines 120 to 144 of \<^verbatim>\<open>getCommit\<close>, the path taken on a cache miss; \<open>m\<close> is the
  (non-nil) cache map at that point.
\<close>

definition getCommit_miss ::
  "'sha1 Repository \<Rightarrow> ('sha1 \<rightharpoonup> 'sha1 Commit) \<Rightarrow> 'sha1 \<Rightarrow> (error + 'sha1 Commit) \<times> 'sha1 Repository"
where
  "getCommit_miss repo m oid =
     (let repo1 = log_io (EvGetRawObject oid) repo in
      case GetRawObject repo oid of
        Inl err \<Rightarrow> (Inl err, repo1)
      | Inr dataRc \<Rightarrow>
          (let repo2 = log_io (EvReadAll oid) repo1 in
           case dataRc of
             Inl err \<Rightarrow> (Inl err, repo2)
           | Inr data \<Rightarrow>
               (let repo3 = log_io (EvParseCommitData oid) repo2 in
                case parseCommitData repo data of
                  Inl err \<Rightarrow> (Inl err, repo3)
                | Inr commit \<Rightarrow>
                    (let commit' = commit\<lparr>commit_Id := oid\<rparr> in
                     (Inr commit', repo3\<lparr>commitCache := Some (m(oid \<mapsto> commit'))\<rparr>)))))"

definition getCommit ::
  "'sha1 Repository \<Rightarrow> 'sha1 \<Rightarrow> (error + 'sha1 Commit) \<times> 'sha1 Repository"
where
  "getCommit repo oid =
     (case commitCache repo of
        Some m \<Rightarrow>
          (case m oid of
             Some c \<Rightarrow> (Inr c, repo)
           | None \<Rightarrow> getCommit_miss repo m oid)
      | None \<Rightarrow> getCommit_miss (repo\<lparr>commitCache := Some Map.empty\<rparr>) Map.empty oid)"

text \<open>
  The sentence of the specification about memoization, word for word, as a predicate
  of a handle and an identifier: two calls in sequence return the same result, and
  between the state before the first and the state after the second the object store
  was asked once and the decoder ran once.
\<close>

definition fetches :: "'sha1 \<Rightarrow> 'sha1 io_event list \<Rightarrow> nat" where
  "fetches oid evs = length (filter (\<lambda>ev. ev = EvGetRawObject oid) evs)"

definition decodes :: "'sha1 \<Rightarrow> 'sha1 io_event list \<Rightarrow> nat" where
  "decodes oid evs = length (filter (\<lambda>ev. ev = EvParseCommitData oid) evs)"

definition memoized_once :: "'sha1 Repository \<Rightarrow> 'sha1 \<Rightarrow> bool" where
  "memoized_once repo oid =
     (let (r1, repo1) = getCommit repo oid;
          (r2, repo2) = getCommit repo1 oid
      in r1 = r2
         \<and> fetches oid (io_log repo2) = fetches oid (io_log repo) + 1
         \<and> decodes oid (io_log repo2) = decodes oid (io_log repo) + 1
         \<and> io_log repo2 = io_log repo1)"

text \<open>
  What a cache miss for \<open>oid\<close> computes, as a function of the object store alone, and
  the handles whose cache holds nothing else. A handle starts with a nil cache and only
  \<open>getCommit\<close> writes to it, so every handle the code can reach is coherent as long as
  the object store answers the same way each time.
\<close>

definition load :: "'sha1 Repository \<Rightarrow> 'sha1 \<Rightarrow> error + 'sha1 Commit" where
  "load repo oid =
     (case GetRawObject repo oid of
        Inl err \<Rightarrow> Inl err
      | Inr dataRc \<Rightarrow>
          (case dataRc of
             Inl err \<Rightarrow> Inl err
           | Inr data \<Rightarrow>
               (case parseCommitData repo data of
                  Inl err \<Rightarrow> Inl err
                | Inr commit \<Rightarrow> Inr (commit\<lparr>commit_Id := oid\<rparr>))))"

definition coherent :: "'sha1 Repository \<Rightarrow> bool" where
  "coherent repo = (\<forall>oid c. cache_entries repo oid = Some c \<longrightarrow> load repo oid = Inr c)"

subsection \<open>Parents of a commit\<close>

text \<open>
  Modelled from the spec: the methods \<^verbatim>\<open>ParentId\<close> and \<^verbatim>\<open>Parent\<close> of \<^verbatim>\<open>Commit\<close> are not
  part of \<^verbatim>\<open>repo_commit.go\<close>. Parents are ordered, parent 0 is the primary one, and a
  parent is fetched lazily through the commit's owning repository, that is through
  \<open>getCommit\<close> on the handle.
\<close>

definition ParentId :: "'sha1 Commit \<Rightarrow> nat \<Rightarrow> error + 'sha1" where
  "ParentId c n =
     (if n < length (commit_parents c) then Inr (commit_parents c ! n) else Inl ErrIdNotExist)"

definition Parent ::
  "'sha1 Repository \<Rightarrow> 'sha1 Commit \<Rightarrow> nat \<Rightarrow> (error + 'sha1 Commit) \<times> 'sha1 Repository"
where
  "Parent repo c n =
     (case ParentId c n of
        Inl err \<Rightarrow> (Inl err, repo)
      | Inr oid \<Rightarrow> getCommit repo oid)"

subsection \<open>CommitsBetween\<close>

text \<open>
  The \<^verbatim>\<open>for\<close> loop of \<^verbatim>\<open>CommitsBetween\<close> (lines 212 to 224) with the \<^verbatim>\<open>return l, nil\<close> that
  follows it. \<open>l\<close> holds the values pushed so far, front to back. A nil \<^verbatim>\<open>before\<close> makes
  \<^verbatim>\<open>before.Id\<close> panic. Nothing bounds the loop, so the model is a partial function.
\<close>

partial_function (option) CommitsBetween_loop ::
  "'sha1 Repository \<Rightarrow> 'sha1 Commit option \<Rightarrow> 'sha1 Commit \<Rightarrow> 'sha1 Commit list
     \<Rightarrow> ((error + 'sha1 Commit list) \<times> 'sha1 Repository) option"
where
  "CommitsBetween_loop repo before cur l =
     (case before of
        None \<Rightarrow> Some (Inl PanicNilPointer, repo)
      | Some b \<Rightarrow>
          if commit_Id cur = commit_Id b then Some (Inr l, repo)
          else if ParentCount cur = 0 then Some (Inr (l @ [cur]), repo)
          else (case Parent repo cur 0 of
                  (Inl err, repo') \<Rightarrow> Some (Inl err, repo')
                | (Inr c, repo') \<Rightarrow> CommitsBetween_loop repo' before c (l @ [cur])))"

definition CommitsBetween ::
  "'sha1 Repository \<Rightarrow> 'sha1 Commit option \<Rightarrow> 'sha1 Commit option
     \<Rightarrow> ((error + 'sha1 Commit list) \<times> 'sha1 Repository) option"
where
  "CommitsBetween repo last' before =
     (case last' of
        None \<Rightarrow> Some (Inr [], repo)
      | Some cur \<Rightarrow>
          if ParentCount cur = 0 then Some (Inr [], repo)
          else CommitsBetween_loop repo before cur [])"

text \<open>
  The walk as C5 words it, over the object store \<open>ld\<close>: \<open>first_parent_walk ld b cur cs\<close>
  holds when \<open>cs\<close> is the first-parent chain from \<open>cur\<close>, each visited commit appended,
  up to but without the first commit whose identifier is \<open>b\<close>, or up to and with a
  parentless commit.
\<close>

fun first_parent_walk ::
  "('sha1 \<Rightarrow> error + 'sha1 Commit) \<Rightarrow> 'sha1 \<Rightarrow> 'sha1 Commit \<Rightarrow> 'sha1 Commit list \<Rightarrow> bool"
where
  "first_parent_walk ld b cur [] = (commit_Id cur = b)"
| "first_parent_walk ld b cur (c # cs) =
     (c = cur \<and> commit_Id cur \<noteq> b \<and>
      (case commit_parents cur of
         [] \<Rightarrow> cs = []
       | p # ps \<Rightarrow> (case ld p of Inl err \<Rightarrow> False | Inr c' \<Rightarrow> first_parent_walk ld b c' cs)))"

text \<open>
  The walk that ends in an error: \<open>first_parent_error ld b cur n e\<close> holds when the
  first-parent chain from \<open>cur\<close> has \<open>n\<close> further commits that the object store loads,
  none of the commits on it has the identifier \<open>b\<close>, and loading the first parent of the
  last of them fails with \<open>e\<close>.
\<close>

fun first_parent_error ::
  "('sha1 \<Rightarrow> error + 'sha1 Commit) \<Rightarrow> 'sha1 \<Rightarrow> 'sha1 Commit \<Rightarrow> nat \<Rightarrow> error \<Rightarrow> bool"
where
  "first_parent_error ld b cur 0 e =
     (commit_Id cur \<noteq> b \<and>
      (case commit_parents cur of [] \<Rightarrow> False | p # ps \<Rightarrow> ld p = Inl e))"
| "first_parent_error ld b cur (Suc n) e =
     (commit_Id cur \<noteq> b \<and>
      (case commit_parents cur of
         [] \<Rightarrow> False
       | p # ps \<Rightarrow> (case ld p of Inl err \<Rightarrow> False | Inr c' \<Rightarrow> first_parent_error ld b c' n e)))"

subsection \<open>The chronological merge list: commitsBefore\<close>

text \<open>
  \<^verbatim>\<open>container/list\<close>: a list is its entries front to back, each an element with its
  value. An element is named by a number that stands for the pointer \<^verbatim>\<open>*list.Element\<close>;
  nothing is ever removed, so the length of the list is a name no element has yet.
\<close>

type_synonym 'a List = "(nat \<times> 'a) list"

definition Values :: "'a List \<Rightarrow> 'a list" where
  "Values l = map snd l"

definition PushBack :: "'a List \<Rightarrow> 'a \<Rightarrow> 'a List \<times> nat" where
  "PushBack l v = (l @ [(length l, v)], length l)"

fun insert_after :: "nat \<Rightarrow> nat \<times> 'a \<Rightarrow> 'a List \<Rightarrow> 'a List" where
  "insert_after mark new [] = []"
| "insert_after mark new (x # xs) =
     (if fst x = mark then x # new # xs else x # insert_after mark new xs)"

text \<open>
  \<^verbatim>\<open>l.InsertAfter(v, mark)\<close>: the new element, or nil and an unchanged list when \<open>mark\<close>
  is not an element of \<open>l\<close>.
\<close>

definition InsertAfter :: "'a List \<Rightarrow> 'a \<Rightarrow> nat \<Rightarrow> 'a List \<times> nat option" where
  "InsertAfter l v mark =
     (if mark \<in> set (map fst l) then (insert_after mark (length l, v) l, Some (length l))
      else (l, None))"

text \<open>The part of the list from element \<open>e\<close> on: \<open>e\<close>, \<^verbatim>\<open>e.Next()\<close>, and so on.\<close>

definition from_elem :: "nat \<Rightarrow> 'a List \<Rightarrow> 'a List" where
  "from_elem e l = dropWhile (\<lambda>x. fst x \<noteq> e) l"

text \<open>
  The \<^verbatim>\<open>for\<close> loop of lines 256 to 276, run on the part of the list from \<^verbatim>\<open>in\<close> on. It
  ends with \<^verbatim>\<open>return nil\<close> when it meets the commit's identifier (\<open>Found\<close>), or breaks
  with \<^verbatim>\<open>in\<close> at an element (\<open>After\<close>) or with \<^verbatim>\<open>in == nil\<close> (\<open>AtNil\<close>).
\<close>

datatype scan_result = Found | After nat | AtNil

fun scan :: "'sha1 Commit \<Rightarrow> 'sha1 Commit List \<Rightarrow> scan_result" where
  "scan commit [] = AtNil"
| "scan commit [(e, v)] =
     (if commit_Id v = commit_Id commit then Found else After e)"
| "scan commit ((e, v) # (e', v') # rest) =
     (if commit_Id v = commit_Id commit then Found
      else if Committer_When v = Committer_When commit then After e
      else if Committer_When v > Committer_When commit
              \<and> Committer_When v' < Committer_When commit then After e
      else scan commit ((e', v') # rest))"

text \<open>
  Lines 250 to 280: where the commit goes. \<open>Placed l' e\<close> is the list after the
  insertion and the new element \<open>e\<close>; \<open>Returned\<close> is the \<^verbatim>\<open>return nil\<close> of line 261;
  \<open>Panicked\<close> is \<^verbatim>\<open>l.InsertAfter(commit, nil)\<close>, which dereferences the nil mark.
\<close>

datatype 'a placement = Placed "'a List" "nat option" | Returned | Panicked

definition place :: "'sha1 Commit List \<Rightarrow> nat option \<Rightarrow> 'sha1 Commit \<Rightarrow> 'sha1 Commit placement" where
  "place l parent commit =
     (case parent of
        None \<Rightarrow> (case PushBack l commit of (l', e) \<Rightarrow> Placed l' (Some e))
      | Some a \<Rightarrow>
          (case scan commit (from_elem a l) of
             Found \<Rightarrow> Returned
           | AtNil \<Rightarrow> Panicked
           | After e \<Rightarrow> (case InsertAfter l commit e of (l', e') \<Rightarrow> Placed l' e')))"

text \<open>
  The result of \<^verbatim>\<open>commitsBefore\<close>: the error it returns, the handle and the list as it
  leaves them.
\<close>

type_synonym 'sha1 walk_state = "error option \<times> 'sha1 Repository \<times> 'sha1 Commit List"

text \<open>
  The \<^verbatim>\<open>for\<close> loop of lines 287 to 296 from index \<open>i\<close> on; \<open>call\<close> is the recursive call
  \<^verbatim>\<open>repo.commitsBefore(lock, l, pr, id, 0)\<close>, whose result is \<open>None\<close> when it does not
  return.
\<close>

function commitsBefore_parents ::
  "('sha1 Repository \<Rightarrow> 'sha1 Commit List \<Rightarrow> nat option \<Rightarrow> 'sha1 \<Rightarrow> 'sha1 walk_state option)
     \<Rightarrow> 'sha1 Repository \<Rightarrow> 'sha1 Commit List \<Rightarrow> nat option \<Rightarrow> 'sha1 Commit \<Rightarrow> nat
     \<Rightarrow> 'sha1 walk_state option"
where
  "commitsBefore_parents call repo l pr commit i =
     (if i < ParentCount commit then
        (case ParentId commit i of
           Inl err \<Rightarrow> Some (Some err, repo, l)
         | Inr oid \<Rightarrow>
             (case call repo l pr oid of
                None \<Rightarrow> None
              | Some (Some err, repo', l') \<Rightarrow> Some (Some err, repo', l')
              | Some (None, repo', l') \<Rightarrow> commitsBefore_parents call repo' l' pr commit (Suc i)))
      else Some (None, repo, l))"
  by pat_completeness auto
termination
  by (relation "measure (\<lambda>(call, repo, l, pr, commit, i). ParentCount commit - i)") auto

text \<open>
  \<^verbatim>\<open>commitsBefore\<close>. The recursion follows the parents as deep as the ancestry goes;
  the first argument bounds the depth of nested calls, and \<open>None\<close> means the bound was
  reached. The \<^verbatim>\<open>lock\<close> is never engaged and the \<^verbatim>\<open>limit\<close> never read: neither is an
  argument of the model.
\<close>

primrec commitsBefore ::
  "nat \<Rightarrow> 'sha1 Repository \<Rightarrow> 'sha1 Commit List \<Rightarrow> nat option \<Rightarrow> 'sha1 \<Rightarrow> 'sha1 walk_state option"
where
  "commitsBefore 0 = (\<lambda>repo l parent oid. None)"
| "commitsBefore (Suc depth) = (\<lambda>repo l parent oid.
     (case getCommit repo oid of
        (Inl err, repo') \<Rightarrow> Some (Some err, repo', l)
      | (Inr commit, repo') \<Rightarrow>
          (case place l parent commit of
             Returned \<Rightarrow> Some (None, repo', l)
           | Panicked \<Rightarrow> Some (Some PanicNilPointer, repo', l)
           | Placed l' e \<Rightarrow>
               (let pr = (if ParentCount commit > 1 then e else parent)
                in commitsBefore_parents (commitsBefore depth) repo' l' pr commit 0))))"

definition getCommitsBefore ::
  "nat \<Rightarrow> 'sha1 Repository \<Rightarrow> 'sha1 \<Rightarrow> 'sha1 walk_state option" where
  "getCommitsBefore depth repo oid = commitsBefore depth repo [] None oid"

text \<open>
  \<^verbatim>\<open>CommitsBefore\<close>. \<^verbatim>\<open>NewIdFromString\<close> is not part of \<^verbatim>\<open>repo_commit.go\<close>; it is a
  parameter. On its error the result list is nil.
\<close>

definition CommitsBefore ::
  "(string \<Rightarrow> error + 'sha1) \<Rightarrow> nat \<Rightarrow> 'sha1 Repository \<Rightarrow> string
     \<Rightarrow> 'sha1 walk_state option"
where
  "CommitsBefore NewIdFromString depth repo commitId =
     (case NewIdFromString commitId of
        Inl err \<Rightarrow> Some (Some err, repo, [])
      | Inr oid \<Rightarrow> getCommitsBefore depth repo oid)"

text \<open>The order C2 speaks of: no value's timestamp is before that of the value after it.\<close>

definition time_ordered :: "'sha1 Commit list \<Rightarrow> bool" where
  "time_ordered cs = sorted_wrt (\<lambda>c d. Committer_When c \<ge> Committer_When d) cs"

text \<open>
  An ancestry in which no commit is older than one of its parents, as far as the
  object store can load them.
\<close>

definition parents_not_younger :: "'sha1 Repository \<Rightarrow> bool" where
  "parents_not_younger repo =
     (\<forall>oid c p d. load repo oid = Inr c \<longrightarrow> p \<in> set (commit_parents c) \<longrightarrow> load repo p = Inr d
        \<longrightarrow> Committer_When d \<le> Committer_When c)"

text \<open>
  Invariants of the list while \<^verbatim>\<open>commitsBefore\<close> runs. Element names are distinct and
  below the length of the list; the list is in non-increasing order of timestamp; and the
  anchor of a call is an element whose timestamp is not before \<open>t\<close>, or, when there is
  no anchor, no element's timestamp is before \<open>t\<close>.
\<close>

definition keys_ok :: "'a List \<Rightarrow> bool" where
  "keys_ok l = (distinct (map fst l) \<and> list_all (\<lambda>x. fst x < length l) l)"

definition ordered :: "'sha1 Commit List \<Rightarrow> bool" where
  "ordered l = sorted_wrt (\<lambda>x y. Committer_When (snd x) \<ge> Committer_When (snd y)) l"

definition anchored :: "'sha1 Commit List \<Rightarrow> nat option \<Rightarrow> int \<Rightarrow> bool" where
  "anchored l parent t =
     (case parent of
        None \<Rightarrow> list_all (\<lambda>x. t \<le> Committer_When (snd x)) l
      | Some a \<Rightarrow> list_ex (\<lambda>x. fst x = a \<and> t \<le> Committer_When (snd x)) l)"

text \<open>What the caller of \<^verbatim>\<open>getCommitsBefore\<close> receives: the error and the list's values.\<close>

definition returned_list :: "'sha1 walk_state option \<Rightarrow> (error option \<times> 'sha1 Commit list) option" where
  "returned_list res = (case res of None \<Rightarrow> None | Some (err, repo, l) \<Rightarrow> Some (err, Values l))"

text \<open>
  The contract of a call \<^verbatim>\<open>repo.commitsBefore(lock, l, parent, id, 0)\<close> that the ordering
  proof carries through the recursion.
\<close>

definition call_ok ::
  "('sha1 Repository \<Rightarrow> 'sha1 Commit List \<Rightarrow> nat option \<Rightarrow> 'sha1 \<Rightarrow> 'sha1 walk_state option) \<Rightarrow> bool"
where
  "call_ok call =
     (\<forall>repo l parent oid err repo' l'.
        coherent repo \<longrightarrow> parents_not_younger repo \<longrightarrow> keys_ok l \<longrightarrow> ordered l \<longrightarrow>
        (\<forall>c. load repo oid = Inr c \<longrightarrow> anchored l parent (Committer_When c)) \<longrightarrow>
        call repo l parent oid = Some (err, repo', l') \<longrightarrow>
        coherent repo' \<and> load repo' = load repo \<and> keys_ok l' \<and> ordered l' \<and> set l \<subseteq> set l')"

text \<open>The condition on the anchor \<open>pr\<close> at index \<open>i\<close> of the loop over the parents.\<close>

definition loop_anchor :: "'sha1 Commit List \<Rightarrow> nat option \<Rightarrow> 'sha1 Commit \<Rightarrow> nat \<Rightarrow> bool" where
  "loop_anchor l pr commit i =
     (case pr of
        None \<Rightarrow> ParentCount commit \<le> 1 \<and> (i = 0 \<longrightarrow> anchored l None (Committer_When commit))
      | Some a \<Rightarrow> anchored l (Some a) (Committer_When commit))"

text \<open>The check, on the objects of an example store, that no commit is older than a parent.\<close>

definition store_not_younger :: "(string \<times> string Commit) list \<Rightarrow> bool" where
  "store_not_younger objects =
     list_all (\<lambda>x. list_all (\<lambda>p. case map_of objects p of
                                      None \<Rightarrow> True
                                    | Some d \<Rightarrow> Committer_When d \<le> Committer_When (snd x))
                             (commit_parents (snd x))) objects"

subsection \<open>Reference resolution\<close>

text \<open>
  The files under \<^verbatim>\<open>repo.Path\<close> as the two functions read them. \<open>ReadFile fs refpath\<close>
  is the result of \<^verbatim>\<open>ioutil.ReadFile(filepath.Join(repo.Path, refpath))\<close>. \<open>packed_refs\<close>
  is the result of opening \<^verbatim>\<open>packed-refs\<close>: the error of \<^verbatim>\<open>os.Open\<close>, or the bytes the
  scanner consumes together with what \<^verbatim>\<open>scan.Err()\<close> reports once \<^verbatim>\<open>scan.Scan()\<close> has
  returned false.
\<close>

record RefFiles =
  ReadFile :: "string \<Rightarrow> error + string"
  packed_refs :: "error + (string \<times> error option)"

abbreviation newline :: char where
  "newline \<equiv> CHR 0x0A"

abbreviation carriage_return :: char where
  "carriage_return \<equiv> CHR 0x0D"

text \<open>
  \<^verbatim>\<open>refRexp.FindAllStringSubmatch(s, 1)\<close> for \<^verbatim>\<open>refRexp = "ref: (.*)\n"\<close>: \<open>None\<close> is the
  nil result, \<open>Some t\<close> is a match whose group \<^verbatim>\<open>allMatches[0][1]\<close> is \<open>t\<close>. The expression
  is not anchored, so the leftmost start position that matches wins; \<^verbatim>\<open>.\<close> matches
  every character but the newline, so the group ends at the first newline after
  \<^verbatim>\<open>"ref: "\<close>.
\<close>

fun refRexp_find :: "string \<Rightarrow> string option" where
  "refRexp_find [] = None"
| "refRexp_find (c # cs) =
     (if prefix ''ref: '' (c # cs) \<and> newline \<in> set (drop 5 (c # cs))
      then Some (takeWhile (\<lambda>x. x \<noteq> newline) (drop 5 (c # cs)))
      else refRexp_find cs)"

text \<open>
  Modelled from the spec: \<^verbatim>\<open>IsSha1\<close> is not part of \<^verbatim>\<open>repo_commit.go\<close>. The textual
  form of an identifier is well-formed when it is exactly 40 valid hex characters.
\<close>

definition is_hex_char :: "char \<Rightarrow> bool" where
  "is_hex_char c = (c \<in> set ''0123456789abcdefABCDEF'')"

definition IsSha1 :: "string \<Rightarrow> bool" where
  "IsSha1 sha1 = (length sha1 = 40 \<and> list_all is_hex_char sha1)"

text \<open>\<^verbatim>\<open>strings.Contains(s, substr)\<close>: \<open>substr\<close> occurs in \<open>s\<close> at some position.\<close>

fun Contains :: "string \<Rightarrow> string \<Rightarrow> bool" where
  "Contains [] substr = (substr = [])"
| "Contains (c # cs) substr = (prefix substr (c # cs) \<or> Contains cs substr)"

text \<open>
  The tokens of a \<^verbatim>\<open>bufio.Scanner\<close> with its default split function
  \<^verbatim>\<open>bufio.ScanLines\<close>: the input is cut at every newline, one trailing carriage return
  is dropped from each line, and a last line without a newline is a token unless it is
  empty. \<open>cur\<close> holds the characters of the current line, last one first.
\<close>

definition dropCR :: "string \<Rightarrow> string" where
  "dropCR l = (if l \<noteq> [] \<and> last l = carriage_return then butlast l else l)"

fun ScanLines_from :: "string \<Rightarrow> string \<Rightarrow> string list" where
  "ScanLines_from cur [] = (if cur = [] then [] else [dropCR (rev cur)])"
| "ScanLines_from cur (c # cs) =
     (if c = newline then dropCR (rev cur) # ScanLines_from [] cs
      else ScanLines_from (c # cur) cs)"

definition ScanLines :: "string \<Rightarrow> string list" where
  "ScanLines content = ScanLines_from [] content"

definition getCommitIdOfPackedRef :: "RefFiles \<Rightarrow> string \<Rightarrow> error + string" where
  "getCommitIdOfPackedRef fs refpath =
     (case packed_refs fs of
        Inl err \<Rightarrow> Inl err
      | Inr (content, scan_err) \<Rightarrow>
          (case find (\<lambda>line. Contains line refpath) (ScanLines content) of
             Some line \<Rightarrow> Inr line
           | None \<Rightarrow>
               (case scan_err of
                  Some err \<Rightarrow> Inl err
                | None \<Rightarrow> Inl ErrRefNotFoundInPackedRefs)))"

text \<open>
  Lines 54 to 57 of \<^verbatim>\<open>getCommitIdOfRef\<close>: the bytes \<open>f\<close> that are examined for
  \<open>refpath\<close>, from the loose file or, when reading it fails, from \<^verbatim>\<open>packed-refs\<close>.
\<close>

definition ref_content :: "RefFiles \<Rightarrow> string \<Rightarrow> error + string" where
  "ref_content fs refpath =
     (case ReadFile fs refpath of
        Inr f \<Rightarrow> Inr f
      | Inl err \<Rightarrow> getCommitIdOfPackedRef fs refpath)"

text \<open>
  \<^verbatim>\<open>getCommitIdOfRef\<close>. The \<^verbatim>\<open>goto start\<close> makes it a loop with no bound, so the model is a
  partial function: \<open>None\<close> stands for a call that never returns.
\<close>

partial_function (option) getCommitIdOfRef :: "RefFiles \<Rightarrow> string \<Rightarrow> (error + string) option" where
  "getCommitIdOfRef fs refpath =
     (case ref_content fs refpath of
        Inl err \<Rightarrow> Some (Inl err)
      | Inr f \<Rightarrow>
          (case refRexp_find f of
             None \<Rightarrow>
               if length f < 40 then Some (Inl ErrSha1TooShort)
               else (let sha1 = take 40 f in
                     if \<not> IsSha1 sha1 then Some (Inl (ErrWrongSha1 sha1))
                     else Some (Inr sha1))
           | Some target \<Rightarrow> getCommitIdOfRef fs target))"

text \<open>The errors of the taxonomy's class ``malformed identifier''.\<close>

fun malformed_identifier :: "error \<Rightarrow> bool" where
  "malformed_identifier ErrSha1TooShort = True"
| "malformed_identifier (ErrWrongSha1 s) = True"
| "malformed_identifier e = False"

text \<open>
  The indirection chain: \<open>next_ref fs p\<close> is the target of \<open>p\<close> when the bytes examined
  for \<open>p\<close> are symbolic, and \<open>hops fs n p\<close> is the ref path reached from \<open>p\<close> after \<open>n\<close>
  hops, if the chain is that long.
\<close>

definition next_ref :: "RefFiles \<Rightarrow> string \<Rightarrow> string option" where
  "next_ref fs p = (case ref_content fs p of Inl err \<Rightarrow> None | Inr f \<Rightarrow> refRexp_find f)"

fun hops :: "RefFiles \<Rightarrow> nat \<Rightarrow> string \<Rightarrow> string option" where
  "hops fs 0 p = Some p"
| "hops fs (Suc n) p = (case next_ref fs p of None \<Rightarrow> None | Some q \<Rightarrow> hops fs n q)"

text \<open>
  ``The chain from \<open>p\<close> reaches non-symbolic content after finitely many hops'': some
  ref of the chain has bytes, and they do not match the pattern.
\<close>

definition reaches_non_symbolic :: "RefFiles \<Rightarrow> string \<Rightarrow> bool" where
  "reaches_non_symbolic fs p =
     (\<exists>n q f. hops fs n p = Some q \<and> ref_content fs q = Inr f \<and> refRexp_find f = None)"

text \<open>``The chain from \<open>p\<close> ends'': some ref of the chain has no target.\<close>

definition chain_ends :: "RefFiles \<Rightarrow> string \<Rightarrow> bool" where
  "chain_ends fs p = (\<exists>n q. hops fs n p = Some q \<and> next_ref fs q = None)"

subsection \<open>The ancestry walker, its visitors and the queries built on them\<close>

text \<open>
  Modelled from the spec: \<^verbatim>\<open>walkHistory\<close>, \<^verbatim>\<open>walkFilteredHistory\<close>, \<^verbatim>\<open>makePager\<close>,
  \<^verbatim>\<open>makeHistorySearcher\<close>, \<^verbatim>\<open>makePathChecker\<close> and \<^verbatim>\<open>makePathComparator\<close> are called by
  \<^verbatim>\<open>repo_commit.go\<close> but are not part of it. What follows is the walker of section 4.3
  of the specification. A visit answers keep-and-continue, skip-and-continue or stop.
\<close>

datatype decision = KeepAndContinue | SkipAndContinue | Stop

text \<open>
  Modelled from the spec: the Pager, \<^verbatim>\<open>makePager(check, skip, take)\<close>. It skips the first
  \<open>skip\<close> would-be-kept commits, keeps the next \<open>take\<close>, then stops; a commit is
  would-be-kept when there is no \<open>check\<close> or the check accepts it. The state of the visitor
  is the pair of what is left to skip and to take.
\<close>

definition makePager ::
  "('sha1 Commit \<Rightarrow> bool) option \<Rightarrow> nat \<times> nat \<Rightarrow> 'sha1 Commit \<Rightarrow> decision \<times> (nat \<times> nat)"
where
  "makePager check st c =
     (case st of (skip, count) \<Rightarrow>
        if (case check of None \<Rightarrow> False | Some f \<Rightarrow> \<not> f c) then (SkipAndContinue, (skip, count))
        else if skip > 0 then (SkipAndContinue, (skip - 1, count))
        else if count > 0 then (KeepAndContinue, (skip, count - 1))
        else (Stop, (skip, count)))"

text \<open>
  Modelled from the spec: the relevance filter, when one is supplied, reports whether the
  path was touched by the commit; without one every commit is relevant.
\<close>

definition relevant :: "('sha1 Commit \<Rightarrow> bool) option \<Rightarrow> 'sha1 Commit \<Rightarrow> bool" where
  "relevant relevance c = (case relevance of None \<Rightarrow> True | Some changed \<Rightarrow> changed c)"

text \<open>
  Modelled from the spec: the walker. Its result is an error, or whether a stop was
  signalled, the visitor's state and the commits kept so far in visitation order,
  together with the handle. \<open>walk_parents\<close> recurses into parent 0 onward in order, each
  fetched through the handle; \<open>walk\<close> does not visit again an identifier already in the
  result, passes a commit to the visitor only when it is relevant (it is skipped
  otherwise, and its ancestry still traversed), and on a stop ends the traversal with the
  result as it was. The first argument of \<open>walk\<close> bounds the depth of nested calls, \<open>None\<close>
  meaning that the bound was reached.
\<close>

type_synonym ('s, 'sha1) walk_result =
  "(error + (bool \<times> 's \<times> 'sha1 Commit list)) \<times> 'sha1 Repository"

function walk_parents ::
  "('sha1 Repository \<Rightarrow> 's \<Rightarrow> 'sha1 Commit list \<Rightarrow> 'sha1 Commit \<Rightarrow> ('s, 'sha1) walk_result option)
     \<Rightarrow> 'sha1 Repository \<Rightarrow> 's \<Rightarrow> 'sha1 Commit list \<Rightarrow> 'sha1 Commit \<Rightarrow> nat
     \<Rightarrow> ('s, 'sha1) walk_result option"
where
  "walk_parents call repo vs res commit i =
     (if i < ParentCount commit then
        (case Parent repo commit i of
           (Inl err, repo') \<Rightarrow> Some (Inl err, repo')
         | (Inr p, repo') \<Rightarrow>
             (case call repo' vs res p of
                None \<Rightarrow> None
              | Some (Inl err, repo'') \<Rightarrow> Some (Inl err, repo'')
              | Some (Inr (stopped, vs', res'), repo'') \<Rightarrow>
                  if stopped then Some (Inr (True, vs', res'), repo'')
                  else walk_parents call repo'' vs' res' commit (Suc i)))
      else Some (Inr (False, vs, res), repo))"
  by pat_completeness auto
termination
  by (relation "measure (\<lambda>(call, repo, vs, res, commit, i). ParentCount commit - i)") auto

primrec walk ::
  "nat \<Rightarrow> ('s \<Rightarrow> 'sha1 Commit \<Rightarrow> decision \<times> 's) \<Rightarrow> ('sha1 Commit \<Rightarrow> bool) option
     \<Rightarrow> 'sha1 Repository \<Rightarrow> 's \<Rightarrow> 'sha1 Commit list \<Rightarrow> 'sha1 Commit
     \<Rightarrow> ('s, 'sha1) walk_result option"
where
  "walk 0 visit relevance = (\<lambda>repo vs res commit. None)"
| "walk (Suc depth) visit relevance = (\<lambda>repo vs res commit.
     if commit_Id commit \<in> set (map commit_Id res) then Some (Inr (False, vs, res), repo)
     else
       (case (if relevant relevance commit then visit vs commit else (SkipAndContinue, vs)) of
          (Stop, vs') \<Rightarrow> Some (Inr (True, vs', res), repo)
        | (KeepAndContinue, vs') \<Rightarrow>
            walk_parents (walk depth visit relevance) repo vs' (res @ [commit]) commit 0
        | (SkipAndContinue, vs') \<Rightarrow>
            walk_parents (walk depth visit relevance) repo vs' res commit 0))"

text \<open>
  Modelled from the spec: \<^verbatim>\<open>walkFilteredHistory(commit, visitor, relevance)\<close> and
  \<^verbatim>\<open>walkHistory(commit, visitor)\<close> return the commits kept, or the error.
\<close>

definition walkFilteredHistory ::
  "nat \<Rightarrow> 'sha1 Repository \<Rightarrow> 'sha1 Commit \<Rightarrow> ('s \<Rightarrow> 'sha1 Commit \<Rightarrow> decision \<times> 's) \<Rightarrow> 's
     \<Rightarrow> ('sha1 Commit \<Rightarrow> bool) option
     \<Rightarrow> ((error + 'sha1 Commit list) \<times> 'sha1 Repository) option"
where
  "walkFilteredHistory depth repo commit visit vs relevance =
     (case walk depth visit relevance repo vs [] commit of
        None \<Rightarrow> None
      | Some (Inl err, repo') \<Rightarrow> Some (Inl err, repo')
      | Some (Inr (stopped, vs', res), repo') \<Rightarrow> Some (Inr res, repo'))"

definition walkHistory ::
  "nat \<Rightarrow> 'sha1 Repository \<Rightarrow> 'sha1 Commit \<Rightarrow> ('s \<Rightarrow> 'sha1 Commit \<Rightarrow> decision \<times> 's) \<Rightarrow> 's
     \<Rightarrow> ((error + 'sha1 Commit list) \<times> 'sha1 Repository) option"
where
  "walkHistory depth repo commit visit vs = walkFilteredHistory depth repo commit visit vs None"

text \<open>The constants of lines 16 to 19.\<close>

definition ItemsPerPage :: nat where
  "ItemsPerPage = 50"

definition ItemsPerSearch :: nat where
  "ItemsPerSearch = 100"

text \<open>
  \<^verbatim>\<open>searchCommits\<close> (lines 311 to 325) and \<^verbatim>\<open>getCommitOfRelPath\<close> (lines 384 to 404), with
  the helpers that are not part of the file as parameters: \<^verbatim>\<open>makeHistorySearcher\<close> gives an
  error or the predicate on commits that the pager takes as its check,
  \<^verbatim>\<open>makePathChecker\<close> the check for a path, \<^verbatim>\<open>makePathComparator\<close> the relevance filter for
  a path.
\<close>

definition searchCommits ::
  "(string \<Rightarrow> error + ('sha1 Commit \<Rightarrow> bool)) \<Rightarrow> nat \<Rightarrow> 'sha1 Repository \<Rightarrow> 'sha1 \<Rightarrow> string
     \<Rightarrow> ((error + 'sha1 Commit list) \<times> 'sha1 Repository) option"
where
  "searchCommits makeHistorySearcher depth repo oid keyword =
     (case getCommit repo oid of
        (Inl err, repo') \<Rightarrow> Some (Inl err, repo')
      | (Inr commit, repo') \<Rightarrow>
          (case makeHistorySearcher keyword of
             Inl err \<Rightarrow> Some (Inl err, repo')
           | Inr searcher \<Rightarrow>
               walkHistory depth repo' commit (makePager (Some searcher)) (0, ItemsPerSearch)))"

definition getCommitOfRelPath ::
  "(string \<Rightarrow> 'sha1 Commit \<Rightarrow> bool) \<Rightarrow> (string \<Rightarrow> 'sha1 Commit \<Rightarrow> bool) \<Rightarrow> nat
     \<Rightarrow> 'sha1 Repository \<Rightarrow> 'sha1 \<Rightarrow> string
     \<Rightarrow> ((error + 'sha1 Commit option) \<times> 'sha1 Repository) option"
where
  "getCommitOfRelPath makePathChecker makePathComparator depth repo oid path =
     (case getCommit repo oid of
        (Inl err, repo') \<Rightarrow> Some (Inl err, repo')
      | (Inr commit, repo') \<Rightarrow>
          (case walkFilteredHistory depth repo' commit (makePager (Some (makePathChecker path))) (0, 1)
                  (Some (makePathComparator path)) of
             None \<Rightarrow> None
           | Some (Inl err, repo'') \<Rightarrow> Some (Inl err, repo'')
           | Some (Inr res, repo'') \<Rightarrow>
               (case res of
                  [] \<Rightarrow> Some (Inr None, repo'')
                | c # cs \<Rightarrow> Some (Inr (Some c), repo''))))"

text \<open>
  The ancestry of \<open>start\<close> as the handle yields it: \<open>start\<close> itself and every commit that
  \<open>vw\<close> gives for a parent identifier of a commit of the ancestry.
\<close>

inductive ancestor ::
  "('sha1 \<Rightarrow> error + 'sha1 Commit) \<Rightarrow> 'sha1 Commit \<Rightarrow> 'sha1 Commit \<Rightarrow> bool"
  for vw :: "'sha1 \<Rightarrow> error + 'sha1 Commit" and start :: "'sha1 Commit"
where
  ancestor_start: "ancestor vw start start"
| ancestor_parent:
    "ancestor vw start c \<Longrightarrow> p \<in> set (commit_parents c) \<Longrightarrow> vw p = Inr d \<Longrightarrow> ancestor vw start d"

text \<open>
  An object store with an endless first-parent chain: object \<open>n\<close> is a commit with the
  one parent \<open>n + 1\<close> and the message \<^verbatim>\<open>fix\<close>. And a searcher that accepts the commits
  whose message contains the keyword.
\<close>

definition chain :: "nat \<Rightarrow> nat Commit" where
  "chain n = \<lparr>commit_Id = n, commit_parents = [Suc n], Committer_When = 0, CommitMessage = ''fix''\<rparr>"

definition chain_repo :: "nat Repository" where
  "chain_repo =
     \<lparr>GetRawObject = (\<lambda>n. Inr (Inr (replicate (Suc n) (CHR ''p'')))),
      parseCommitData = (\<lambda>data. Inr \<lparr>commit_Id = 0, commit_parents = [length data],
                                       Committer_When = 0, CommitMessage = ''fix''\<rparr>),
      commitCache = None,
      io_log = []\<rparr>"

definition substring_searcher :: "string \<Rightarrow> error + ('sha1 Commit \<Rightarrow> bool)" where
  "substring_searcher keyword = Inr (\<lambda>c. Contains (CommitMessage c) keyword)"

text \<open>
  What \<open>getCommit repo oid\<close> returns: the cached commit, or else what the object store
  gives. \<open>getCommit\<close> leaves it unchanged.
\<close>

definition view :: "'sha1 Repository \<Rightarrow> 'sha1 \<Rightarrow> error + 'sha1 Commit" where
  "view repo oid = (case cache_entries repo oid of Some c \<Rightarrow> Inr c | None \<Rightarrow> load repo oid)"

text \<open>
  Proof vocabulary for the walker: a visitor that preserves an invariant \<open>Inv\<close> of its
  state and the result on the commits of \<open>V\<close>; a set \<open>V\<close> closed under parents; and the
  contract of a recursive call of the walker.
\<close>

definition visit_keeps ::
  "('sha1 Commit \<Rightarrow> bool) \<Rightarrow> ('sha1 Commit \<Rightarrow> bool) option \<Rightarrow> ('s \<Rightarrow> 'sha1 Commit list \<Rightarrow> bool)
     \<Rightarrow> ('s \<Rightarrow> 'sha1 Commit \<Rightarrow> decision \<times> 's) \<Rightarrow> bool"
where
  "visit_keeps V relevance Inv visit =
     (\<forall>vs res c. V c \<longrightarrow> Inv vs res \<longrightarrow> relevant relevance c \<longrightarrow>
        (case visit vs c of
           (KeepAndContinue, vs') \<Rightarrow> Inv vs' (res @ [c])
         | (SkipAndContinue, vs') \<Rightarrow> Inv vs' res
         | (Stop, vs') \<Rightarrow> Inv vs' res))"

definition parents_in ::
  "('sha1 \<Rightarrow> error + 'sha1 Commit) \<Rightarrow> ('sha1 Commit \<Rightarrow> bool) \<Rightarrow> bool"
where
  "parents_in vw V =
     (\<forall>c p d. V c \<longrightarrow> p \<in> set (commit_parents c) \<longrightarrow> vw p = Inr d \<longrightarrow> V d)"

definition walk_ok ::
  "('sha1 \<Rightarrow> error + 'sha1 Commit) \<Rightarrow> ('sha1 Commit \<Rightarrow> bool) \<Rightarrow> ('s \<Rightarrow> 'sha1 Commit list \<Rightarrow> bool)
     \<Rightarrow> ('sha1 Repository \<Rightarrow> 's \<Rightarrow> 'sha1 Commit list \<Rightarrow> 'sha1 Commit \<Rightarrow> ('s, 'sha1) walk_result option)
     \<Rightarrow> bool"
where
  "walk_ok vw V Inv call =
     (\<forall>repo vs res commit stopped vs' res' repo'.
        view repo = vw \<longrightarrow> V commit \<longrightarrow> Inv vs res \<longrightarrow>
        call repo vs res commit = Some (Inr (stopped, vs', res'), repo') \<longrightarrow>
        Inv vs' res' \<and> view repo' = vw)"

subsection \<open>Example handles\<close>

definition commit0 :: "nat Commit" where
  "commit0 = \<lparr>commit_Id = 0, commit_parents = [], Committer_When = 0, CommitMessage = ''init''\<rparr>"

text \<open>A handle whose object store holds nothing.\<close>

definition empty_repo :: "nat Repository" where
  "empty_repo =
     \<lparr>GetRawObject = (\<lambda>_. Inl (ErrExternal 1)),
      parseCommitData = (\<lambda>_. Inl (ErrExternal 2)),
      commitCache = None,
      io_log = []\<rparr>"

text \<open>A handle whose object store holds one parentless commit under every identifier.\<close>

definition single_repo :: "nat Repository" where
  "single_repo =
     \<lparr>GetRawObject = (\<lambda>_. Inr (Inr ''tree'')),
      parseCommitData = (\<lambda>_. Inr commit0),
      commitCache = None,
      io_log = []\<rparr>"

text \<open>Ref files used as examples.\<close>

definition sha1_text :: string where
  "sha1_text = ''0123456789abcdef0123456789ABCDEF01234567''"

definition example_files :: RefFiles where
  "example_files =
     \<lparr>ReadFile = (\<lambda>p.
        if p = ''HEAD'' then Inr (''ref: refs/heads/master'' @ [newline])
        else if p = ''refs/heads/master'' then Inr (sha1_text @ [newline])
        else if p = ''refs/heads/short'' then Inr ''0123abc''
        else if p = ''refs/heads/bad'' then Inr (''ref:refs/heads/master is missing a blank after the colon'' @ [newline])
        else if p = ''refs/heads/dangling'' then Inr (''ref: refs/heads/gone'' @ [newline])
        else if p = ''refs/heads/loop'' then Inr (''ref: refs/heads/loop'' @ [newline])
        else if p = ''refs/heads/ping'' then Inr (''ref: refs/heads/pong'' @ [newline])
        else if p = ''refs/heads/pong'' then Inr (''ref: refs/heads/ping'' @ [newline])
        else Inl (ErrExternal 2)),
      packed_refs =
        Inr (''# pack-refs with: peeled'' @ [newline] @
             sha1_text @ '' refs/tags/v1.0'' @ [newline] @
             ''zz refs/tags/broken'' @ [newline], None)\<rparr>"

text \<open>
  Ref files in which one ref path is part of another, and a loose file that holds an
  identifier followed by a symbolic line.
\<close>

definition sha1_other :: string where
  "sha1_other = ''89abcdef0123456789abcdef0123456789abcdef''"

definition topic_files :: RefFiles where
  "topic_files =
     \<lparr>ReadFile = (\<lambda>p.
        if p = ''refs/heads/mixed''
        then Inr (sha1_text @ [newline] @ ''ref: refs/heads/other'' @ [newline])
        else if p = ''refs/heads/other'' then Inr (sha1_other @ [newline])
        else Inl (ErrExternal 2)),
      packed_refs =
        Inr (sha1_other @ '' refs/heads/topic-old'' @ [newline] @
             sha1_text @ '' refs/heads/topic'' @ [newline], None)\<rparr>"

text \<open>Ref files in which every loose file holds \<open>f\<close> and there is no \<^verbatim>\<open>packed-refs\<close>.\<close>

definition loose_files :: "string \<Rightarrow> RefFiles" where
  "loose_files f = \<lparr>ReadFile = (\<lambda>p. Inr f), packed_refs = Inl (ErrExternal 3)\<rparr>"

text \<open>
  Object stores used as examples, with commit names as identifiers: a diamond \<open>M\<close>,
  \<open>B\<close>, \<open>A\<close>, \<open>R\<close> and a merge \<open>O\<close> of three parentless commits of one timestamp; and
  a chain \<open>X\<close>, \<open>Y\<close> whose child is older than its parent; and a chain \<open>E\<close>, \<open>D\<close>
  whose last commit names a parent \<open>Z\<close> that the store does not hold.
\<close>

definition repo_of :: "(string \<times> string Commit) list \<Rightarrow> string Repository" where
  "repo_of objects =
     \<lparr>GetRawObject = (\<lambda>oid. if oid \<in> set (map fst objects) then Inr (Inr oid) else Inl (ErrExternal 1)),
      parseCommitData = (\<lambda>data. case map_of objects data of Some c \<Rightarrow> Inr c | None \<Rightarrow> Inl (ErrExternal 2)),
      commitCache = None,
      io_log = []\<rparr>"

definition history :: "(string \<times> string Commit) list" where
  "history =
     [(''M'', \<lparr>commit_Id = [], commit_parents = [''B'', ''A''], Committer_When = 40, CommitMessage = ''merge''\<rparr>),
      (''B'', \<lparr>commit_Id = [], commit_parents = [''R''], Committer_When = 30, CommitMessage = ''fix b''\<rparr>),
      (''A'', \<lparr>commit_Id = [], commit_parents = [''R''], Committer_When = 20, CommitMessage = ''add a''\<rparr>),
      (''R'', \<lparr>commit_Id = [], commit_parents = [], Committer_When = 10, CommitMessage = ''root''\<rparr>),
      (''O'', \<lparr>commit_Id = [], commit_parents = [''P'', ''Q'', ''S''], Committer_When = 10, CommitMessage = ''octopus''\<rparr>),
      (''P'', \<lparr>commit_Id = [], commit_parents = [], Committer_When = 5, CommitMessage = ''p''\<rparr>),
      (''Q'', \<lparr>commit_Id = [], commit_parents = [], Committer_When = 5, CommitMessage = ''q''\<rparr>),
      (''S'', \<lparr>commit_Id = [], commit_parents = [], Committer_When = 5, CommitMessage = ''s''\<rparr>)]"

definition history_repo :: "string Repository" where
  "history_repo = repo_of history"

definition skewed_history :: "(string \<times> string Commit) list" where
  "skewed_history =
     [(''X'', \<lparr>commit_Id = [], commit_parents = [''Y''], Committer_When = 1, CommitMessage = ''skewed clock''\<rparr>),
      (''Y'', \<lparr>commit_Id = [], commit_parents = [], Committer_When = 2, CommitMessage = ''first''\<rparr>)]"

definition skewed_repo :: "string Repository" where
  "skewed_repo = repo_of skewed_history"

definition broken_history :: "(string \<times> string Commit) list" where
  "broken_history =
     [(''E'', \<lparr>commit_Id = [], commit_parents = [''D''], Committer_When = 9, CommitMessage = ''e''\<rparr>),
      (''D'', \<lparr>commit_Id = [], commit_parents = [''Z''], Committer_When = 8, CommitMessage = ''d''\<rparr>)]"

definition broken_repo :: "string Repository" where
  "broken_repo = repo_of broken_history"

definition commit_E :: "string Commit" where
  "commit_E = \<lparr>commit_Id = ''E'', commit_parents = [''D''], Committer_When = 9, CommitMessage = ''e''\<rparr>"

definition commit_D :: "string Commit" where
  "commit_D = \<lparr>commit_Id = ''D'', commit_parents = [''Z''], Committer_When = 8, CommitMessage = ''d''\<rparr>"

definition commit_M :: "string Commit" where
  "commit_M = \<lparr>commit_Id = ''M'', commit_parents = [''B'', ''A''], Committer_When = 40, CommitMessage = ''merge''\<rparr>"

definition commit_B :: "string Commit" where
  "commit_B = \<lparr>commit_Id = ''B'', commit_parents = [''R''], Committer_When = 30, CommitMessage = ''fix b''\<rparr>"

definition commit_A :: "string Commit" where
  "commit_A = \<lparr>commit_Id = ''A'', commit_parents = [''R''], Committer_When = 20, CommitMessage = ''add a''\<rparr>"

definition commit_R :: "string Commit" where
  "commit_R = \<lparr>commit_Id = ''R'', commit_parents = [], Committer_When = 10, CommitMessage = ''root''\<rparr>"

definition commit_X :: "string Commit" where
  "commit_X = \<lparr>commit_Id = ''X'', commit_parents = [''Y''], Committer_When = 1, CommitMessage = ''skewed clock''\<rparr>"

definition commit_Y :: "string Commit" where
  "commit_Y = \<lparr>commit_Id = ''Y'', commit_parents = [], Committer_When = 2, CommitMessage = ''first''\<rparr>"

definition commit_O :: "string Commit" where
  "commit_O = \<lparr>commit_Id = ''O'', commit_parents = [''P'', ''Q'', ''S''], Committer_When = 10, CommitMessage = ''octopus''\<rparr>"

definition commit_P :: "string Commit" where
  "commit_P = \<lparr>commit_Id = ''P'', commit_parents = [], Committer_When = 5, CommitMessage = ''p''\<rparr>"

definition commit_Q :: "string Commit" where
  "commit_Q = \<lparr>commit_Id = ''Q'', commit_parents = [], Committer_When = 5, CommitMessage = ''q''\<rparr>"

definition commit_S :: "string Commit" where
  "commit_S = \<lparr>commit_Id = ''S'', commit_parents = [], Committer_When = 5, CommitMessage = ''s''\<rparr>"

text \<open>
  Helpers for the examples of \<^verbatim>\<open>getCommitOfRelPath\<close>: a path check that accepts every
  commit, a relevance filter for which no commit changed the path, and the timestamp as a
  rank.
\<close>

definition any_path :: "string \<Rightarrow> 'sha1 Commit \<Rightarrow> bool" where
  "any_path path c = True"

definition never_changed :: "string \<Rightarrow> 'sha1 Commit \<Rightarrow> bool" where
  "never_changed path c = False"

definition age :: "'sha1 Commit \<Rightarrow> nat" where
  "age c = nat (Committer_When c)"

subsection \<open>Properties of the commit store\<close>

lemma getCommit_miss_log:
  "\<exists>evs. io_log (snd (getCommit_miss repo m oid)) = io_log repo @ EvGetRawObject oid # evs"
  by (simp add: getCommit_miss_def log_io_def Let_def split: sum.splits)

lemma getCommit_miss_Inl:
  "fst (getCommit_miss repo m oid) = Inl e \<Longrightarrow>
     commitCache (snd (getCommit_miss repo m oid)) = commitCache repo"
  by (simp add: getCommit_miss_def log_io_def Let_def split: sum.splits)

lemma getCommit_miss_Inr:
  "getCommit_miss repo m oid = (Inr c, repo') \<Longrightarrow>
     commitCache repo' = Some (m(oid \<mapsto> c))
     \<and> io_log repo' = io_log repo @ [EvGetRawObject oid, EvReadAll oid, EvParseCommitData oid]
     \<and> GetRawObject repo' = GetRawObject repo
     \<and> parseCommitData repo' = parseCommitData repo"
  by (auto simp: getCommit_miss_def log_io_def Let_def split: sum.splits)

lemma getCommit_hit:
  "cache_entries repo oid = Some c \<Longrightarrow> getCommit repo oid = (Inr c, repo)"
  by (auto simp: getCommit_def cache_entries_def split: option.splits)

text \<open>
  C4, as the specification states it, fails: when the object is missing the first call
  fails, nothing is cached, and the second call asks the object store again. On
  \<open>empty_repo\<close> the two calls fetch twice and decode never.
\<close>

theorem getCommit_twice_counterexample:
  "\<not> memoized_once empty_repo 0"
  by (simp add: memoized_once_def getCommit_def getCommit_miss_def log_io_def empty_repo_def
      fetches_def decodes_def Let_def)

text \<open>
  C4, amended: whenever \<open>getCommit repo oid\<close> returns a commit, a second call on the
  resulting handle returns the same commit and leaves the handle as it is, log
  included: it is a cache hit that does no I/O. If the identifier was not cached before
  the first call, the two calls together ask the object store once, read once and
  decode once; if it was, they do no I/O at all.
\<close>

theorem getCommit_twice:
  assumes "getCommit repo oid = (Inr c, repo')"
  shows "getCommit repo' oid = (Inr c, repo')
         \<and> (cache_entries repo oid = None \<longrightarrow>
              io_log repo' = io_log repo @ [EvGetRawObject oid, EvReadAll oid, EvParseCommitData oid]
              \<and> fetches oid (io_log (snd (getCommit repo' oid))) = fetches oid (io_log repo) + 1
              \<and> decodes oid (io_log (snd (getCommit repo' oid))) = decodes oid (io_log repo) + 1)
         \<and> (cache_entries repo oid \<noteq> None \<longrightarrow> io_log repo' = io_log repo)"
proof -
  have cached: "cache_entries repo' oid = Some c"
    using assms
    by (auto simp: getCommit_def cache_entries_def split: option.splits
        dest!: getCommit_miss_Inr)
  have again: "getCommit repo' oid = (Inr c, repo')"
    by (rule getCommit_hit [OF cached])
  have miss: "io_log repo' = io_log repo @ [EvGetRawObject oid, EvReadAll oid, EvParseCommitData oid]"
    if "cache_entries repo oid = None"
    using assms that
    by (auto simp: getCommit_def cache_entries_def split: option.splits
        dest!: getCommit_miss_Inr)
  have hit: "io_log repo' = io_log repo" if "cache_entries repo oid \<noteq> None"
    using assms that
    by (auto simp: getCommit_def cache_entries_def split: option.splits)
  show ?thesis
    using again miss hit by (simp add: fetches_def decodes_def)
qed

theorem getCommit_twice_witness:
  "getCommit single_repo 5 =
     (Inr (commit0\<lparr>commit_Id := 5\<rparr>),
      single_repo\<lparr>commitCache := Some [5 \<mapsto> commit0\<lparr>commit_Id := 5\<rparr>],
                  io_log := [EvGetRawObject 5, EvReadAll 5, EvParseCommitData 5]\<rparr>)
   \<and> getCommit (snd (getCommit single_repo 5)) 5 =
       (Inr (commit0\<lparr>commit_Id := 5\<rparr>), snd (getCommit single_repo 5))
   \<and> fetches 5 (io_log (snd (getCommit (snd (getCommit single_repo 5)) 5))) = 1"
proof -
  have first: "getCommit single_repo 5 =
     (Inr (commit0\<lparr>commit_Id := 5\<rparr>),
      single_repo\<lparr>commitCache := Some [5 \<mapsto> commit0\<lparr>commit_Id := 5\<rparr>],
                  io_log := [EvGetRawObject 5, EvReadAll 5, EvParseCommitData 5]\<rparr>)"
    by (simp add: getCommit_def getCommit_miss_def log_io_def single_repo_def Let_def)
  have fresh: "cache_entries single_repo 5 = None"
    by (simp add: cache_entries_def single_repo_def)
  have "fetches 5 (io_log single_repo) = 0"
    by (simp add: fetches_def single_repo_def)
  then show ?thesis
    using getCommit_twice [OF first] first fresh by (simp add: fetches_def)
qed

text \<open>
  C10: if \<open>getCommit repo oid\<close> fails, whether the object store, the read or the decoder
  failed, the cache has the entries it had before and none for \<open>id\<close>; the next call with
  the same identifier asks the object store again.
\<close>

theorem getCommit_error_not_cached:
  assumes "fst (getCommit repo oid) = Inl e"
  shows "cache_entries (snd (getCommit repo oid)) = cache_entries repo
         \<and> cache_entries (snd (getCommit repo oid)) oid = None
         \<and> (\<exists>evs. io_log (snd (getCommit (snd (getCommit repo oid)) oid)) =
                    io_log (snd (getCommit repo oid)) @ EvGetRawObject oid # evs)"
proof -
  let ?repo' = "snd (getCommit repo oid)"
  have same: "cache_entries ?repo' = cache_entries repo"
    using assms
    by (auto simp: getCommit_def cache_entries_def getCommit_miss_Inl split: option.splits)
  have none: "cache_entries repo oid = None"
    using assms by (auto simp: getCommit_def cache_entries_def split: option.splits)
  have "\<exists>evs. io_log (snd (getCommit ?repo' oid)) = io_log ?repo' @ EvGetRawObject oid # evs"
  proof (cases "commitCache ?repo'")
    case None
    then show ?thesis
      using getCommit_miss_log [of "?repo'\<lparr>commitCache := Some Map.empty\<rparr>" Map.empty oid]
      by (simp add: getCommit_def)
  next
    case (Some m)
    then have "m oid = None"
      using same none by (simp add: cache_entries_def)
    then show ?thesis
      using Some getCommit_miss_log [of ?repo' m oid] by (simp add: getCommit_def)
  qed
  then show ?thesis
    using same none by simp
qed

theorem getCommit_error_not_cached_witness:
  "fst (getCommit empty_repo 7) = Inl (ErrExternal 1)
   \<and> cache_entries (snd (getCommit empty_repo 7)) 7 = None
   \<and> io_log (snd (getCommit (snd (getCommit empty_repo 7)) 7)) = [EvGetRawObject 7, EvGetRawObject 7]"
proof -
  have failed: "fst (getCommit empty_repo 7) = Inl (ErrExternal 1)"
    by (simp add: getCommit_def getCommit_miss_def log_io_def empty_repo_def Let_def)
  have "io_log (snd (getCommit (snd (getCommit empty_repo 7)) 7)) = [EvGetRawObject 7, EvGetRawObject 7]"
    by (simp add: getCommit_def getCommit_miss_def log_io_def empty_repo_def Let_def)
  then show ?thesis
    using getCommit_error_not_cached [OF failed] failed
    by (simp add: cache_entries_def empty_repo_def)
qed

subsection \<open>Coherent handles\<close>

lemma load_getCommit_miss [simp]: "load (snd (getCommit_miss repo m oid')) = load repo"
  by (rule ext) (simp add: getCommit_miss_def load_def log_io_def Let_def split: sum.splits)

lemma load_commitCache: "load (repo\<lparr>commitCache := m\<rparr>) = load repo"
  by (rule ext) (simp add: load_def split: sum.splits)

lemma load_getCommit [simp]: "load (snd (getCommit repo oid')) = load repo"
proof (cases "commitCache repo")
  case None
  then show ?thesis by (simp add: getCommit_def load_commitCache)
next
  case (Some m)
  then show ?thesis by (simp add: getCommit_def split: option.splits)
qed

lemma fst_getCommit_miss: "fst (getCommit_miss repo m oid) = load repo oid"
  by (simp add: getCommit_miss_def load_def log_io_def Let_def split: sum.splits)

lemma cache_getCommit_miss:
  "cache_entries (snd (getCommit_miss repo m oid)) =
     (case load repo oid of Inl e \<Rightarrow> cache_entries repo | Inr c \<Rightarrow> m(oid \<mapsto> c))"
  by (simp add: getCommit_miss_def load_def log_io_def cache_entries_def Let_def split: sum.splits)

lemma coherent_miss:
  assumes "coherent repo" and "cache_entries repo = m"
  shows "coherent (snd (getCommit_miss repo m oid))"
proof (cases "load repo oid")
  case (Inl e)
  then show ?thesis
    using assms by (simp add: coherent_def cache_getCommit_miss)
next
  case (Inr c)
  then show ?thesis
    using assms by (auto simp: coherent_def cache_getCommit_miss)
qed

lemma getCommit_coherent:
  assumes "coherent repo"
  shows "fst (getCommit repo oid) = load repo oid" and "coherent (snd (getCommit repo oid))"
proof -
  show "fst (getCommit repo oid) = load repo oid"
  proof (cases "commitCache repo")
    case None
    then show ?thesis
      by (simp add: getCommit_def fst_getCommit_miss load_commitCache)
  next
    case (Some m)
    show ?thesis
    proof (cases "m oid")
      case None
      then show ?thesis using Some by (simp add: getCommit_def fst_getCommit_miss)
    next
      case (Some c)
      then have "cache_entries repo oid = Some c"
        using \<open>commitCache repo = Some m\<close> by (simp add: cache_entries_def)
      then have "load repo oid = Inr c"
        using assms unfolding coherent_def by blast
      then show ?thesis
        using Some \<open>commitCache repo = Some m\<close> by (simp add: getCommit_def)
    qed
  qed
  show "coherent (snd (getCommit repo oid))"
  proof (cases "commitCache repo")
    case None
    let ?repo = "repo\<lparr>commitCache := Some Map.empty\<rparr>"
    have "coherent ?repo" by (simp add: coherent_def cache_entries_def)
    moreover have "cache_entries ?repo = Map.empty" by (simp add: cache_entries_def)
    ultimately have "coherent (snd (getCommit_miss ?repo Map.empty oid))" by (rule coherent_miss)
    then show ?thesis using None by (simp add: getCommit_def)
  next
    case (Some m)
    then have "cache_entries repo = m" by (simp add: cache_entries_def)
    with assms have "coherent (snd (getCommit_miss repo m oid))" by (rule coherent_miss)
    then show ?thesis using Some assms by (simp add: getCommit_def split: option.splits)
  qed
qed

lemma getCommit_load:
  "coherent repo \<Longrightarrow> getCommit repo oid = (load repo oid, snd (getCommit repo oid))"
  using getCommit_coherent(1) [of repo oid] by (metis prod.collapse)

subsection \<open>Properties of reference resolution\<close>

lemma IsSha1_sha1_text: "IsSha1 sha1_text"
  by (simp add: IsSha1_def sha1_text_def is_hex_char_def)

lemma set_dropCR: "set (dropCR l) \<subseteq> set l"
  by (auto simp: dropCR_def dest: in_set_butlastD)

lemma ScanLines_from_no_newline:
  "newline \<notin> set cur \<Longrightarrow> list_all (\<lambda>l. newline \<notin> set l) (ScanLines_from cur s)"
proof (induction s arbitrary: cur)
  case Nil
  then show ?case using set_dropCR [of "rev cur"] by auto
next
  case (Cons c s)
  have "newline \<notin> set (dropCR (rev cur))"
    using Cons.prems set_dropCR [of "rev cur"] by auto
  moreover have "list_all (\<lambda>l. newline \<notin> set l) (ScanLines_from [] s)"
    by (rule Cons.IH) simp
  moreover have "list_all (\<lambda>l. newline \<notin> set l) (ScanLines_from (c # cur) s)" if "c \<noteq> newline"
    by (rule Cons.IH) (use that Cons.prems in auto)
  ultimately show ?case by simp
qed

lemma find_in_set: "find P xs = Some x \<Longrightarrow> x \<in> set xs"
  by (induction xs) (auto split: if_splits)

lemma refRexp_find_no_newline: "newline \<notin> set f \<Longrightarrow> refRexp_find f = None"
  by (induction f) (auto dest: in_set_dropD)

lemma getCommitIdOfPackedRef_line:
  assumes "getCommitIdOfPackedRef fs refpath = Inr line"
  shows "refRexp_find line = None"
proof -
  obtain content where "line \<in> set (ScanLines content)"
    using assms
    by (auto simp: getCommitIdOfPackedRef_def
        split: sum.splits option.splits prod.splits dest: find_in_set)
  moreover have "list_all (\<lambda>l. newline \<notin> set l) (ScanLines content)"
    unfolding ScanLines_def by (rule ScanLines_from_no_newline) simp
  ultimately have "newline \<notin> set line"
    by (simp add: list_all_iff)
  then show ?thesis by (rule refRexp_find_no_newline)
qed

lemma refRexp_find_hex: "list_all is_hex_char s \<Longrightarrow> refRexp_find (s @ rest) = refRexp_find rest"
  by (induction s) (auto simp: is_hex_char_def)

lemma getCommitIdOfRef_plain:
  "ref_content fs p = Inr f \<Longrightarrow> refRexp_find f = None \<Longrightarrow>
     getCommitIdOfRef fs p =
       Some (if length f < 40 then Inl ErrSha1TooShort
             else if \<not> IsSha1 (take 40 f) then Inl (ErrWrongSha1 (take 40 f))
             else Inr (take 40 f))"
  by (subst getCommitIdOfRef.simps) (simp add: Let_def)

lemma getCommitIdOfRef_error:
  "ref_content fs p = Inl err \<Longrightarrow> getCommitIdOfRef fs p = Some (Inl err)"
  by (subst getCommitIdOfRef.simps) simp

lemma getCommitIdOfRef_hop:
  "next_ref fs p = Some q \<Longrightarrow> getCommitIdOfRef fs p = getCommitIdOfRef fs q"
  by (subst getCommitIdOfRef.simps) (auto simp: next_ref_def split: sum.splits)

lemma getCommitIdOfRef_hops:
  "hops fs n p = Some q \<Longrightarrow> getCommitIdOfRef fs p = getCommitIdOfRef fs q"
  by (induction n arbitrary: p) (auto split: option.splits simp: getCommitIdOfRef_hop)

lemma getCommitIdOfRef_end:
  "next_ref fs q = None \<Longrightarrow> getCommitIdOfRef fs q \<noteq> None"
  by (subst getCommitIdOfRef.simps) (auto simp: next_ref_def Let_def split: sum.splits)

lemma chain_ends_step: "next_ref fs p = Some q \<Longrightarrow> chain_ends fs q \<Longrightarrow> chain_ends fs p"
proof -
  assume nx: "next_ref fs p = Some q" and "chain_ends fs q"
  then obtain n r where "hops fs n q = Some r" "next_ref fs r = None"
    by (auto simp: chain_ends_def)
  then have "hops fs (Suc n) p = Some r \<and> next_ref fs r = None"
    using nx by simp
  then show ?thesis unfolding chain_ends_def by blast
qed

lemma chain_ends_here: "next_ref fs p = None \<Longrightarrow> chain_ends fs p"
  unfolding chain_ends_def using hops.simps(1) by blast

lemma returns_chain_ends:
  "getCommitIdOfRef fs p = Some y \<Longrightarrow> chain_ends fs p"
proof (rule getCommitIdOfRef.raw_induct [where P = "\<lambda>fs p y. chain_ends fs p"])
  fix resolve fs refpath y
  assume IH: "\<And>fs p y. resolve fs p = Some y \<Longrightarrow> chain_ends fs p"
    and body: "(case ref_content fs refpath of
        Inl err \<Rightarrow> Some (Inl err)
      | Inr f \<Rightarrow>
          (case refRexp_find f of
             None \<Rightarrow>
               if length f < 40 then Some (Inl ErrSha1TooShort)
               else (let sha1 = take 40 f in
                     if \<not> IsSha1 sha1 then Some (Inl (ErrWrongSha1 sha1))
                     else Some (Inr sha1))
           | Some target \<Rightarrow> resolve fs target)) = Some y"
  show "chain_ends fs refpath"
  proof (cases "next_ref fs refpath")
    case None
    then show ?thesis by (rule chain_ends_here)
  next
    case (Some q)
    then have "resolve fs q = Some y"
      using body by (auto simp: next_ref_def split: sum.splits)
    then show ?thesis using IH Some chain_ends_step by blast
  qed
qed

lemma chain_ends_returns: "chain_ends fs p \<Longrightarrow> getCommitIdOfRef fs p \<noteq> None"
  using getCommitIdOfRef_hops getCommitIdOfRef_end unfolding chain_ends_def by metis

lemma hops_cycle: "next_ref fs p = Some p \<Longrightarrow> hops fs n p = Some p"
  by (induction n) auto

lemma next_loop: "next_ref example_files ''refs/heads/loop'' = Some ''refs/heads/loop''"
  by (simp add: next_ref_def ref_content_def example_files_def)


lemma hops_add:
  "hops fs (a + b) p = (case hops fs a p of None \<Rightarrow> None | Some q \<Rightarrow> hops fs b q)"
  by (induction a arbitrary: p) (auto split: option.splits)

lemma hops_cycle_defined:
  assumes "hops fs (Suc k) c = Some c"
  shows "hops fs m c \<noteq> None"
proof (induction m rule: less_induct)
  case (less m)
  show ?case
  proof (cases "m \<le> Suc k")
    case True
    then have "Suc k = m + (Suc k - m)" by simp
    then have "hops fs (m + (Suc k - m)) c = Some c" using assms by simp
    then show ?thesis by (auto simp: hops_add split: option.splits)
  next
    case False
    then have m: "m = Suc k + (m - Suc k)" and "m - Suc k < m" by simp_all
    then have "hops fs (m - Suc k) c \<noteq> None" using less.IH by blast
    moreover have "hops fs (Suc k + (m - Suc k)) c = hops fs (m - Suc k) c"
      using assms by (simp only: hops_add) simp
    ultimately show ?thesis using m by simp
  qed
qed

lemma cycle_never_ends:
  assumes "hops fs (Suc k) c = Some c"
  shows "\<not> chain_ends fs c"
proof
  assume "chain_ends fs c"
  then obtain n q where "hops fs n c = Some q" "next_ref fs q = None"
    by (auto simp: chain_ends_def)
  then have "hops fs (n + 1) c = None"
    by (simp only: hops_add) simp
  then show False using hops_cycle_defined [OF assms, of "n + 1"] by simp
qed

lemma find_first:
  "list_all (\<lambda>l. \<not> P l) pre \<Longrightarrow> P x \<Longrightarrow> find P (pre @ x # post) = Some x"
  by (induction pre) auto

lemma Contains_self: "Contains q q"
  by (cases q) auto

lemma Contains_suffix: "Contains (xs @ q) q"
  by (induction xs) (auto simp: Contains_self)

lemma getCommitIdOfPackedRef_first:
  assumes "packed_refs fs = Inr (content, scan_err)"
    and "ScanLines content = pre @ line # post"
    and "list_all (\<lambda>l. \<not> Contains l refpath) pre"
    and "Contains line refpath"
  shows "getCommitIdOfPackedRef fs refpath = Inr line"
  using assms find_first [of "\<lambda>l. Contains l refpath" pre line post]
  by (simp add: getCommitIdOfPackedRef_def)

lemma content_master: "ReadFile example_files ''refs/heads/master'' = Inr (sha1_text @ [newline])"
  by (simp add: example_files_def)

lemma content_HEAD: "ref_content example_files ''HEAD'' = Inr (''ref: refs/heads/master'' @ [newline])"
  by (simp add: example_files_def ref_content_def)

lemma IsSha1_sha1_other: "IsSha1 sha1_other"
  by (simp add: IsSha1_def sha1_other_def is_hex_char_def)

lemma resolve_other: "getCommitIdOfRef topic_files ''refs/heads/other'' = Some (Inr sha1_other)"
proof -
  have "ref_content topic_files ''refs/heads/other'' = Inr (sha1_other @ [newline])"
    by (simp add: ref_content_def topic_files_def)
  moreover have "refRexp_find (sha1_other @ [newline]) = None"
    using IsSha1_sha1_other by (simp add: refRexp_find_hex IsSha1_def)
  ultimately show ?thesis
    using getCommitIdOfRef_plain [of topic_files "''refs/heads/other''" "sha1_other @ [newline]"]
      IsSha1_sha1_other
    by (simp add: IsSha1_def)
qed

lemma resolve_mixed: "getCommitIdOfRef topic_files ''refs/heads/mixed'' = Some (Inr sha1_other)"
proof -
  have "refRexp_find (sha1_text @ [newline] @ ''ref: refs/heads/other'' @ [newline]) =
      Some ''refs/heads/other''"
    using IsSha1_sha1_text by (simp add: refRexp_find_hex IsSha1_def)
  then have "next_ref topic_files ''refs/heads/mixed'' = Some ''refs/heads/other''"
    by (simp add: next_ref_def ref_content_def topic_files_def)
  then show ?thesis
    using getCommitIdOfRef_hop resolve_other by simp
qed

lemma lines_topic:
  "packed_refs topic_files =
     Inr (sha1_other @ '' refs/heads/topic-old'' @ [newline] @
          sha1_text @ '' refs/heads/topic'' @ [newline], None)"
  "ScanLines (sha1_other @ '' refs/heads/topic-old'' @ [newline] @
          sha1_text @ '' refs/heads/topic'' @ [newline]) =
     [sha1_other @ '' refs/heads/topic-old'', sha1_text @ '' refs/heads/topic'']"
  by (simp_all add: topic_files_def ScanLines_def dropCR_def sha1_other_def sha1_text_def)

lemma resolve_topic: "getCommitIdOfRef topic_files ''refs/heads/topic'' = Some (Inr sha1_other)"
proof -
  have "Contains (sha1_other @ '' refs/heads/topic-old'') ''refs/heads/topic''"
    by (simp add: sha1_other_def)
  then have "getCommitIdOfPackedRef topic_files ''refs/heads/topic'' =
      Inr (sha1_other @ '' refs/heads/topic-old'')"
    using getCommitIdOfPackedRef_first [OF lines_topic(1), of "[]"] lines_topic(2) by simp
  then have c: "ref_content topic_files ''refs/heads/topic'' = Inr (sha1_other @ '' refs/heads/topic-old'')"
    by (simp add: ref_content_def topic_files_def)
  have "refRexp_find (sha1_other @ '' refs/heads/topic-old'') = None"
    by (rule refRexp_find_no_newline) (simp add: sha1_other_def)
  then show ?thesis
    using getCommitIdOfRef_plain [OF c] IsSha1_sha1_other by (simp add: IsSha1_def)
qed

lemma resolve_loose_topic:
  "getCommitIdOfRef (loose_files (sha1_text @ '' refs/heads/topic'')) ''refs/heads/topic'' =
     Some (Inr sha1_text)"
proof -
  have c: "ref_content (loose_files (sha1_text @ '' refs/heads/topic'')) ''refs/heads/topic'' =
      Inr (sha1_text @ '' refs/heads/topic'')"
    by (simp add: ref_content_def loose_files_def)
  have "refRexp_find (sha1_text @ '' refs/heads/topic'') = None"
    by (rule refRexp_find_no_newline) (simp add: sha1_text_def)
  then show ?thesis
    using getCommitIdOfRef_plain [OF c] IsSha1_sha1_text by (simp add: IsSha1_def)
qed

text \<open>
  C3, as stated, fails in two places. A loose file that holds a valid identifier and,
  after it, a line \<^verbatim>\<open>ref: refs/heads/other\<close> is taken for a symbolic ref, the expression
  of line 22 not being anchored: \<^verbatim>\<open>refs/heads/mixed\<close> resolves to the identifier of
  \<^verbatim>\<open>refs/heads/other\<close>. And the lookup in \<^verbatim>\<open>packed-refs\<close> takes the first line that
  contains the path anywhere: \<^verbatim>\<open>refs/heads/topic\<close>, recorded on the second line, resolves
  to the identifier of \<^verbatim>\<open>refs/heads/topic-old\<close> on the first, while a loose file with the
  bytes of its own line resolves to its own identifier.
\<close>

theorem getCommitIdOfRef_resolves_counterexample:
  "ReadFile topic_files ''refs/heads/mixed'' =
     Inr (sha1_text @ [newline] @ ''ref: refs/heads/other'' @ [newline])
   \<and> IsSha1 sha1_text
   \<and> getCommitIdOfRef topic_files ''refs/heads/mixed'' = Some (Inr sha1_other)
   \<and> ReadFile topic_files ''refs/heads/topic'' = Inl (ErrExternal 2)
   \<and> packed_refs topic_files =
       Inr (sha1_other @ '' refs/heads/topic-old'' @ [newline] @
            sha1_text @ '' refs/heads/topic'' @ [newline], None)
   \<and> getCommitIdOfRef topic_files ''refs/heads/topic'' = Some (Inr sha1_other)
   \<and> getCommitIdOfRef (loose_files (sha1_text @ '' refs/heads/topic'')) ''refs/heads/topic'' =
       Some (Inr sha1_text)
   \<and> sha1_other \<noteq> sha1_text"
proof -
  have "ReadFile topic_files ''refs/heads/mixed'' =
      Inr (sha1_text @ [newline] @ ''ref: refs/heads/other'' @ [newline])"
    "ReadFile topic_files ''refs/heads/topic'' = Inl (ErrExternal 2)"
    by (simp_all add: topic_files_def)
  moreover have "sha1_other \<noteq> sha1_text"
    by (simp add: sha1_other_def sha1_text_def)
  ultimately show ?thesis
    using IsSha1_sha1_text resolve_mixed resolve_topic resolve_loose_topic lines_topic(1)
    by (simp only: simp_thms)
qed

text \<open>
  C3, amended: (1) when the loose file of a ref holds a valid 40-hex identifier followed
  by bytes in which nothing matches the symbolic pattern (a newline, say), resolution
  returns exactly that identifier; (2) for a chain \<open>a \<rightarrow> b \<rightarrow> id\<close>, where the bytes of
  \<open>a\<close> match \<^verbatim>\<open>"ref: b\n"\<close> and \<open>b\<close> holds the identifier in this way, resolving \<open>a\<close>
  returns the identifier; (3) when the loose file of \<open>q\<close> cannot be read and the table
  \<^verbatim>\<open>packed-refs\<close> records \<open>q\<close> on a line \<^verbatim>\<open><id> <q>\<close> and no earlier line of the table
  contains \<open>q\<close>, resolution gives what it gives for any loose ref whose file holds that
  line's bytes, which is \<^verbatim>\<open><id>\<close> when that is a valid identifier.
\<close>

theorem getCommitIdOfRef_resolves:
  "(IsSha1 sha1 \<and> ReadFile fs p = Inr (sha1 @ rest) \<and> refRexp_find rest = None \<longrightarrow>
      getCommitIdOfRef fs p = Some (Inr sha1))
   \<and> (ref_content fs a = Inr fa \<and> refRexp_find fa = Some b
        \<and> IsSha1 sha1' \<and> ref_content fs b = Inr (sha1' @ rest') \<and> refRexp_find rest' = None \<longrightarrow>
      getCommitIdOfRef fs a = Some (Inr sha1'))
   \<and> (ReadFile fs q = Inl err \<and> packed_refs fs = Inr (content, scan_err)
        \<and> ScanLines content = pre @ (sha1'' @ '' '' @ q) # post
        \<and> list_all (\<lambda>l. \<not> Contains l q) pre
        \<and> ReadFile fs' q' = Inr (sha1'' @ '' '' @ q) \<longrightarrow>
      getCommitIdOfRef fs q = getCommitIdOfRef fs' q'
      \<and> (IsSha1 sha1'' \<longrightarrow> getCommitIdOfRef fs q = Some (Inr sha1'')))"
proof -
  have plain: "getCommitIdOfRef g r = Some (Inr s)"
    if "IsSha1 s" "ref_content g r = Inr (s @ t)" "refRexp_find t = None" for g r s t
  proof -
    have "refRexp_find (s @ t) = None"
      using that by (simp add: refRexp_find_hex IsSha1_def)
    then show ?thesis
      using that getCommitIdOfRef_plain [of g r "s @ t"] by (simp add: IsSha1_def)
  qed
  have one: "getCommitIdOfRef fs p = Some (Inr sha1)"
    if "IsSha1 sha1" "ReadFile fs p = Inr (sha1 @ rest)" "refRexp_find rest = None"
    using that by (intro plain [of sha1 fs p rest]) (simp_all add: ref_content_def)
  have two: "getCommitIdOfRef fs a = Some (Inr sha1')"
    if "ref_content fs a = Inr fa" "refRexp_find fa = Some b" "IsSha1 sha1'"
       "ref_content fs b = Inr (sha1' @ rest')" "refRexp_find rest' = None"
  proof -
    have "next_ref fs a = Some b" using that by (simp add: next_ref_def)
    then have "getCommitIdOfRef fs a = getCommitIdOfRef fs b" by (rule getCommitIdOfRef_hop)
    then show ?thesis using that plain [of sha1' fs b rest'] by simp
  qed
  have three: "getCommitIdOfRef fs q = getCommitIdOfRef fs' q'
      \<and> (IsSha1 sha1'' \<longrightarrow> getCommitIdOfRef fs q = Some (Inr sha1''))"
    if "ReadFile fs q = Inl err" "packed_refs fs = Inr (content, scan_err)"
      "ScanLines content = pre @ (sha1'' @ '' '' @ q) # post"
      "list_all (\<lambda>l. \<not> Contains l q) pre"
      "ReadFile fs' q' = Inr (sha1'' @ '' '' @ q)"
  proof -
    let ?line = "sha1'' @ '' '' @ q"
    have "Contains ?line q"
      using Contains_suffix [of "sha1'' @ '' ''" q] by simp
    then have found: "getCommitIdOfPackedRef fs q = Inr ?line"
      using getCommitIdOfPackedRef_first [OF that(2,3,4)] by simp
    have nomatch: "refRexp_find ?line = None"
      using found by (rule getCommitIdOfPackedRef_line)
    have c: "ref_content fs q = Inr ?line" "ref_content fs' q' = Inr ?line"
      using that(1,5) found by (simp_all add: ref_content_def)
    have same: "getCommitIdOfRef fs q = getCommitIdOfRef fs' q'"
      using nomatch getCommitIdOfRef_plain [OF c(1)] getCommitIdOfRef_plain [OF c(2)] by simp
    have "getCommitIdOfRef fs q = Some (Inr sha1'')" if sha: "IsSha1 sha1''"
    proof -
      have "refRexp_find ('' '' @ q) = None"
        using nomatch sha by (simp add: refRexp_find_hex IsSha1_def)
      then show ?thesis using plain [OF sha c(1)] by simp
    qed
    then show ?thesis using same by simp
  qed
  show ?thesis using one two three by blast
qed

lemma lines_example:
  "packed_refs example_files =
     Inr (''# pack-refs with: peeled'' @ [newline] @
          sha1_text @ '' refs/tags/v1.0'' @ [newline] @
          ''zz refs/tags/broken'' @ [newline], None)"
  "ScanLines (''# pack-refs with: peeled'' @ [newline] @
          sha1_text @ '' refs/tags/v1.0'' @ [newline] @
          ''zz refs/tags/broken'' @ [newline]) =
     [''# pack-refs with: peeled''] @ (sha1_text @ '' '' @ ''refs/tags/v1.0'') # [''zz refs/tags/broken'']"
  by (simp_all add: example_files_def ScanLines_def dropCR_def sha1_text_def)

theorem getCommitIdOfRef_resolves_witness:
  "getCommitIdOfRef example_files ''refs/heads/master'' = Some (Inr sha1_text)
   \<and> getCommitIdOfRef example_files ''HEAD'' = Some (Inr sha1_text)
   \<and> ReadFile example_files ''refs/tags/v1.0'' = Inl (ErrExternal 2)
   \<and> getCommitIdOfRef example_files ''refs/tags/v1.0'' = Some (Inr sha1_text)
   \<and> getCommitIdOfRef example_files ''refs/tags/v1.0'' =
       getCommitIdOfRef (loose_files (sha1_text @ '' '' @ ''refs/tags/v1.0'')) ''refs/tags/v1.0''"
proof -
  have sha: "IsSha1 sha1_text" by (rule IsSha1_sha1_text)
  have nl: "refRexp_find [newline] = None" by simp
  have master: "ref_content example_files ''refs/heads/master'' = Inr (sha1_text @ [newline])"
    using content_master by (simp add: ref_content_def)
  have head: "refRexp_find (''ref: refs/heads/master'' @ [newline]) = Some ''refs/heads/master''"
    by simp
  have loose: "ReadFile example_files ''refs/tags/v1.0'' = Inl (ErrExternal 2)"
    by (simp add: example_files_def)
  have earlier: "list_all (\<lambda>l. \<not> Contains l ''refs/tags/v1.0'') [''# pack-refs with: peeled'']"
    by simp
  let ?fs' = "loose_files (sha1_text @ '' '' @ ''refs/tags/v1.0'')"
  have fs': "ReadFile ?fs' ''refs/tags/v1.0'' = Inr (sha1_text @ '' '' @ ''refs/tags/v1.0'')"
    by (simp add: loose_files_def)
  note inst = getCommitIdOfRef_resolves [of sha1_text example_files "''refs/heads/master''" "[newline]"
      "''HEAD''" "''ref: refs/heads/master'' @ [newline]" "''refs/heads/master''" sha1_text "[newline]"
      "''refs/tags/v1.0''" "ErrExternal 2"
      "''# pack-refs with: peeled'' @ [newline] @ sha1_text @ '' refs/tags/v1.0'' @ [newline] @
         ''zz refs/tags/broken'' @ [newline]" None
      "[''# pack-refs with: peeled'']" sha1_text "[''zz refs/tags/broken'']" ?fs' "''refs/tags/v1.0''"]
  have one: "getCommitIdOfRef example_files ''refs/heads/master'' = Some (Inr sha1_text)"
    using inst sha nl content_master by blast
  have two: "getCommitIdOfRef example_files ''HEAD'' = Some (Inr sha1_text)"
    using inst sha nl master head content_HEAD by blast
  have three: "getCommitIdOfRef example_files ''refs/tags/v1.0'' = getCommitIdOfRef ?fs' ''refs/tags/v1.0''
      \<and> (IsSha1 sha1_text \<longrightarrow> getCommitIdOfRef example_files ''refs/tags/v1.0'' = Some (Inr sha1_text))"
    using inst loose lines_example earlier fs' by blast
  show ?thesis
    using one two three sha loose by blast
qed

text \<open>
  C7: when the bytes examined for a ref, from its loose file or from \<^verbatim>\<open>packed-refs\<close>, do
  not match the symbolic pattern and are shorter than 40 characters, or their first 40
  characters are not a valid identifier, resolution returns an error of the
  malformed-identifier class: ``sha1 hash too short'' or ``heads file wrong sha1
  string''. It neither succeeds nor reports that the ref was not found.
\<close>

theorem getCommitIdOfRef_malformed:
  assumes "ref_content fs p = Inr f" and "refRexp_find f = None"
    and "length f < 40 \<or> \<not> IsSha1 (take 40 f)"
  shows "getCommitIdOfRef fs p =
           Some (Inl (if length f < 40 then ErrSha1TooShort else ErrWrongSha1 (take 40 f)))
         \<and> malformed_identifier (if length f < 40 then ErrSha1TooShort else ErrWrongSha1 (take 40 f))"
  using assms getCommitIdOfRef_plain [of fs p f] by auto

theorem getCommitIdOfRef_malformed_witness:
  "getCommitIdOfRef example_files ''refs/heads/short'' = Some (Inl ErrSha1TooShort)
   \<and> getCommitIdOfRef example_files ''refs/tags/broken'' = Some (Inl ErrSha1TooShort)
   \<and> getCommitIdOfRef example_files ''refs/heads/bad'' =
       Some (Inl (ErrWrongSha1 ''ref:refs/heads/master is missing a blank''))"
proof -
  have short: "ref_content example_files ''refs/heads/short'' = Inr ''0123abc''"
    by (simp add: example_files_def ref_content_def)
  have broken: "ref_content example_files ''refs/tags/broken'' = Inr ''zz refs/tags/broken''"
    by (simp add: example_files_def ref_content_def getCommitIdOfPackedRef_def ScanLines_def
        dropCR_def sha1_text_def)
  have bad: "ref_content example_files ''refs/heads/bad'' =
      Inr (''ref:refs/heads/master is missing a blank after the colon'' @ [newline])"
    by (simp add: example_files_def ref_content_def)
  have bad_sha: "\<not> IsSha1 (take 40 (''ref:refs/heads/master is missing a blank after the colon'' @ [newline]))"
    by (simp add: IsSha1_def is_hex_char_def)
  show ?thesis
    using getCommitIdOfRef_malformed [OF short] getCommitIdOfRef_malformed [OF broken]
      getCommitIdOfRef_malformed [OF bad] bad_sha
    by simp
qed

lemma next_dangling: "next_ref example_files ''refs/heads/dangling'' = Some ''refs/heads/gone''"
  by (simp add: next_ref_def ref_content_def example_files_def)

lemma content_gone: "ref_content example_files ''refs/heads/gone'' = Inl ErrRefNotFoundInPackedRefs"
  by (simp add: ref_content_def example_files_def getCommitIdOfPackedRef_def ScanLines_def
      dropCR_def sha1_text_def)

lemma resolve_dangling:
  "getCommitIdOfRef example_files ''refs/heads/dangling'' = Some (Inl ErrRefNotFoundInPackedRefs)"
  using getCommitIdOfRef_hop [OF next_dangling] getCommitIdOfRef_error [OF content_gone] by simp

text \<open>
  C9, as stated, says that resolution terminates only when the chain reaches
  non-symbolic content. It also terminates when a ref of the chain cannot be read at
  all: \<^verbatim>\<open>refs/heads/dangling\<close> points to \<^verbatim>\<open>refs/heads/gone\<close>, which is neither a loose file
  nor a line of \<^verbatim>\<open>packed-refs\<close>; resolution returns the error of line 59, and no ref of
  the chain has non-symbolic content.
\<close>

theorem getCommitIdOfRef_dangling_counterexample:
  "getCommitIdOfRef example_files ''refs/heads/dangling'' = Some (Inl ErrRefNotFoundInPackedRefs)
   \<and> \<not> reaches_non_symbolic example_files ''refs/heads/dangling''"
proof -
  note nx = next_dangling and gone = content_gone and res = resolve_dangling
  have "\<not> (hops example_files n ''refs/heads/dangling'' = Some q
            \<and> ref_content example_files q = Inr f \<and> refRexp_find f = None)" for n q f
  proof (cases n)
    case 0
    then show ?thesis using nx by (auto simp: next_ref_def)
  next
    case (Suc m)
    then show ?thesis using nx gone by (cases m) (auto simp: next_ref_def)
  qed
  then show ?thesis using res by (simp add: reaches_non_symbolic_def)
qed

text \<open>
  C9, amended: there is no cycle detection. \<open>getCommitIdOfRef\<close> returns exactly when the
  indirection chain from the given ref path ends after finitely many hops, at a ref
  whose bytes are not symbolic or that cannot be read; whenever the chain leads from a
  ref back to itself, in one hop or in several, resolution does not return; and such a
  configuration exists.
\<close>

theorem getCommitIdOfRef_unbounded:
  "(getCommitIdOfRef fs p \<noteq> None \<longleftrightarrow> chain_ends fs p)
   \<and> (hops fs (Suc n) c = Some c \<longrightarrow> getCommitIdOfRef fs c = None)
   \<and> (\<exists>fs' c'. next_ref fs' c' = Some c' \<and> getCommitIdOfRef fs' c' = None)"
proof -
  have iff: "getCommitIdOfRef g r \<noteq> None \<longleftrightarrow> chain_ends g r" for g r
    using returns_chain_ends [of g r] chain_ends_returns [of g r] by auto
  have cyc: "getCommitIdOfRef g r = None" if "hops g (Suc k) r = Some r" for g r k
    using cycle_never_ends [OF that] iff [of g r] by simp
  have "hops example_files (Suc 0) ''refs/heads/loop'' = Some ''refs/heads/loop''"
    using next_loop by simp
  then have "getCommitIdOfRef example_files ''refs/heads/loop'' = None"
    by (rule cyc)
  then show ?thesis using iff cyc next_loop by blast
qed

theorem getCommitIdOfRef_unbounded_witness:
  "hops example_files (Suc 0) ''refs/heads/loop'' = Some ''refs/heads/loop''
   \<and> getCommitIdOfRef example_files ''refs/heads/loop'' = None
   \<and> hops example_files (Suc (Suc 0)) ''refs/heads/ping'' = Some ''refs/heads/ping''
   \<and> getCommitIdOfRef example_files ''refs/heads/ping'' = None
   \<and> chain_ends example_files ''refs/heads/dangling''"
proof -
  have loop: "hops example_files (Suc 0) ''refs/heads/loop'' = Some ''refs/heads/loop''"
    by (simp add: next_ref_def ref_content_def example_files_def)
  have ping: "hops example_files (Suc (Suc 0)) ''refs/heads/ping'' = Some ''refs/heads/ping''"
    by (simp add: next_ref_def ref_content_def example_files_def)
  have "getCommitIdOfRef example_files ''refs/heads/dangling'' \<noteq> None"
    using resolve_dangling by simp
  then show ?thesis
    using loop ping
      getCommitIdOfRef_unbounded [of example_files "''refs/heads/loop''" 0 "''refs/heads/loop''"]
      getCommitIdOfRef_unbounded [of example_files "''refs/heads/dangling''" "Suc 0" "''refs/heads/ping''"]
    by simp
qed


subsection \<open>Properties of CommitsBetween\<close>

lemma CommitsBetween_loop_walk:
  "coherent repo \<Longrightarrow> first_parent_walk (load repo) (commit_Id b) cur cs \<Longrightarrow>
     \<exists>repo'. CommitsBetween_loop repo (Some b) cur l = Some (Inr (l @ cs), repo')
            \<and> coherent repo' \<and> load repo' = load repo"
proof (induction cs arbitrary: repo cur l)
  case Nil
  then show ?case
    by (subst CommitsBetween_loop.simps) simp
next
  case (Cons c cs)
  then have c: "c = cur" and ne: "commit_Id cur \<noteq> commit_Id b" by simp_all
  show ?case
  proof (cases "commit_parents cur")
    case Nil
    then show ?thesis
      using Cons.prems c ne by (subst CommitsBetween_loop.simps) (simp add: ParentCount_def)
  next
    case (Cons p ps)
    then obtain c' where ld: "load repo p = Inr c'"
      and walk: "first_parent_walk (load repo) (commit_Id b) c' cs"
      using Cons.prems(2) by (auto split: sum.splits)
    let ?repo1 = "snd (getCommit repo p)"
    have par: "Parent repo cur 0 = (Inr c', ?repo1)"
      using Cons ld getCommit_load [OF Cons.prems(1), of p] by (simp add: Parent_def ParentId_def)
    have co: "coherent ?repo1" by (rule getCommit_coherent(2) [OF Cons.prems(1)])
    have "first_parent_walk (load ?repo1) (commit_Id b) c' cs" using walk by simp
    from Cons.IH [OF co this, of "l @ [cur]"]
    obtain repo' where "CommitsBetween_loop ?repo1 (Some b) c' (l @ [cur]) = Some (Inr ((l @ [cur]) @ cs), repo')"
      "coherent repo'" "load repo' = load ?repo1" by blast
    then show ?thesis
      using par ne Cons c by (subst CommitsBetween_loop.simps) (simp add: ParentCount_def)
  qed
qed

lemma load_history:
  "load history_repo ''M'' = Inr commit_M"
  "load history_repo ''B'' = Inr commit_B"
  "load history_repo ''A'' = Inr commit_A"
  "load history_repo ''R'' = Inr commit_R"
  "load history_repo ''O'' = Inr commit_O"
  "load history_repo ''P'' = Inr commit_P"
  "load history_repo ''Q'' = Inr commit_Q"
  "load history_repo ''S'' = Inr commit_S"
  by (simp_all add: load_def history_repo_def repo_of_def history_def commit_M_def commit_B_def
      commit_A_def commit_R_def commit_O_def commit_P_def commit_Q_def commit_S_def)

lemma load_skewed:
  "load skewed_repo ''X'' = Inr commit_X"
  "load skewed_repo ''Y'' = Inr commit_Y"
  by (simp_all add: load_def skewed_repo_def repo_of_def skewed_history_def commit_X_def commit_Y_def)

lemma load_broken:
  "load broken_repo ''E'' = Inr commit_E"
  "load broken_repo ''D'' = Inr commit_D"
  "load broken_repo ''Z'' = Inl (ErrExternal 1)"
  by (simp_all add: load_def broken_repo_def repo_of_def broken_history_def commit_E_def commit_D_def)

lemma CommitsBetween_loop_error:
  "coherent repo \<Longrightarrow> first_parent_error (load repo) (commit_Id b) cur n e \<Longrightarrow>
     \<exists>repo'. CommitsBetween_loop repo (Some b) cur l = Some (Inl e, repo')"
proof (induction n arbitrary: repo cur l)
  case 0
  then obtain p ps where ne: "commit_Id cur \<noteq> commit_Id b"
    and ps: "commit_parents cur = p # ps" and ld: "load repo p = Inl e"
    by (auto split: list.splits)
  have "Parent repo cur 0 = (Inl e, snd (getCommit repo p))"
    using ps ld getCommit_load [OF "0.prems"(1), of p] by (simp add: Parent_def ParentId_def)
  then show ?case
    using ne ps by (subst CommitsBetween_loop.simps) (simp add: ParentCount_def)
next
  case (Suc n)
  then obtain p ps c' where ne: "commit_Id cur \<noteq> commit_Id b"
    and ps: "commit_parents cur = p # ps" and ld: "load repo p = Inr c'"
    and rest: "first_parent_error (load repo) (commit_Id b) c' n e"
    by (auto split: list.splits sum.splits)
  let ?repo1 = "snd (getCommit repo p)"
  have par: "Parent repo cur 0 = (Inr c', ?repo1)"
    using ps ld getCommit_load [OF Suc.prems(1), of p] by (simp add: Parent_def ParentId_def)
  have co: "coherent ?repo1" by (rule getCommit_coherent(2) [OF Suc.prems(1)])
  have "first_parent_error (load ?repo1) (commit_Id b) c' n e" using rest by simp
  from Suc.IH [OF co this, of "l @ [cur]"]
  obtain repo' where "CommitsBetween_loop ?repo1 (Some b) c' (l @ [cur]) = Some (Inl e, repo')"
    by blast
  then show ?case
    using par ne ps by (subst CommitsBetween_loop.simps) (simp add: ParentCount_def)
qed

lemma coherent_repo_of: "coherent (repo_of objects)"
  by (simp add: coherent_def cache_entries_def repo_of_def)

lemma coherent_history: "coherent history_repo"
  by (simp add: history_repo_def coherent_repo_of)

text \<open>
  C5, as stated, fails for a parentless \<^verbatim>\<open>last\<close>: the walk of the claim visits \<open>last\<close>,
  appends it and stops there, the chain being exhausted, while the guard of line 206
  returns the empty list before the loop is entered.
\<close>

theorem CommitsBetween_root_counterexample:
  "first_parent_walk (load history_repo) (commit_Id commit_M) commit_R [commit_R]
   \<and> CommitsBetween history_repo (Some commit_R) (Some commit_M) = Some (Inr [], history_repo)"
  by (simp add: CommitsBetween_def ParentCount_def commit_R_def commit_M_def)

text \<open>
  C5, amended. When \<^verbatim>\<open>last\<close> is nil or has no parent the result is the empty list,
  whatever \<^verbatim>\<open>before\<close> is. Otherwise, for a \<^verbatim>\<open>before\<close> that is not nil and on a coherent
  handle, the call walks the first-parent chain from \<^verbatim>\<open>last\<close>: if the object store loads
  the first parents on the way, the result is the chain, each visited commit appended,
  up to but without the first commit whose identifier is that of \<^verbatim>\<open>before\<close>, or up to
  and with a parentless commit when no such commit is met (that \<^verbatim>\<open>before\<close> is not an
  ancestor is not signalled, the whole chain is returned); if loading a first parent
  fails before that, its error is returned. The theorem also records what line 213 does
  with a nil \<^verbatim>\<open>before\<close> when \<^verbatim>\<open>last\<close> has a parent: \<^verbatim>\<open>before.Id\<close> panics.
\<close>

theorem CommitsBetween_walk:
  "(last' = None \<or> last' = Some cur \<and> commit_parents cur = [] \<longrightarrow>
      CommitsBetween repo last' before = Some (Inr [], repo))
   \<and> (coherent repo \<and> commit_parents cur \<noteq> []
        \<and> first_parent_walk (load repo) (commit_Id b) cur cs \<longrightarrow>
      (\<exists>repo'. CommitsBetween repo (Some cur) (Some b) = Some (Inr cs, repo')))
   \<and> (coherent repo \<and> commit_parents cur \<noteq> []
        \<and> first_parent_error (load repo) (commit_Id b) cur n e \<longrightarrow>
      (\<exists>repo'. CommitsBetween repo (Some cur) (Some b) = Some (Inl e, repo')))
   \<and> (commit_parents cur \<noteq> [] \<longrightarrow>
      CommitsBetween repo (Some cur) None = Some (Inl PanicNilPointer, repo))"
proof -
  have walk: "\<exists>repo'. CommitsBetween repo (Some cur) (Some b) = Some (Inr cs, repo')"
    if "coherent repo" "commit_parents cur \<noteq> []" "first_parent_walk (load repo) (commit_Id b) cur cs"
    using that CommitsBetween_loop_walk [of repo b cur cs "[]"]
    by (auto simp: CommitsBetween_def ParentCount_def)
  have err: "\<exists>repo'. CommitsBetween repo (Some cur) (Some b) = Some (Inl e, repo')"
    if "coherent repo" "commit_parents cur \<noteq> []" "first_parent_error (load repo) (commit_Id b) cur n e"
    using that CommitsBetween_loop_error [of repo b cur n e "[]"]
    by (auto simp: CommitsBetween_def ParentCount_def)
  have nil: "CommitsBetween repo (Some cur) None = Some (Inl PanicNilPointer, repo)"
    if "commit_parents cur \<noteq> []"
    using that unfolding CommitsBetween_def
    by (subst CommitsBetween_loop.simps) (simp add: ParentCount_def)
  have empty: "CommitsBetween repo last' before = Some (Inr [], repo)"
    if "last' = None \<or> last' = Some cur \<and> commit_parents cur = []"
    using that by (auto simp: CommitsBetween_def ParentCount_def)
  show ?thesis
    using walk err nil empty by blast
qed

theorem CommitsBetween_walk_witness:
  "(\<exists>repo'. CommitsBetween history_repo (Some commit_M) (Some commit_R) =
      Some (Inr [commit_M, commit_B], repo'))
   \<and> (\<exists>repo'. CommitsBetween history_repo (Some commit_M) (Some commit_X) =
      Some (Inr [commit_M, commit_B, commit_R], repo'))
   \<and> CommitsBetween history_repo (Some commit_R) (Some commit_X) = Some (Inr [], history_repo)
   \<and> (\<exists>repo'. CommitsBetween broken_repo (Some commit_E) (Some commit_X) =
      Some (Inl (ErrExternal 1), repo'))
   \<and> CommitsBetween history_repo (Some commit_M) None = Some (Inl PanicNilPointer, history_repo)"
proof -
  have par: "commit_parents commit_M \<noteq> []" "commit_parents commit_R = []"
    "commit_parents commit_E \<noteq> []"
    by (simp_all add: commit_M_def commit_R_def commit_E_def)
  have w1: "first_parent_walk (load history_repo) (commit_Id commit_R) commit_M [commit_M, commit_B]"
    by (simp add: load_history commit_M_def commit_B_def commit_R_def)
  have w2: "first_parent_walk (load history_repo) (commit_Id commit_X) commit_M
      [commit_M, commit_B, commit_R]"
    by (simp add: load_history commit_M_def commit_B_def commit_R_def commit_X_def)
  have w3: "first_parent_error (load broken_repo) (commit_Id commit_X) commit_E (Suc 0) (ErrExternal 1)"
    by (simp add: load_broken commit_E_def commit_D_def commit_X_def)
  have co: "coherent broken_repo"
    by (simp add: broken_repo_def coherent_repo_of)
  have one: "\<exists>repo'. CommitsBetween history_repo (Some commit_M) (Some commit_R) =
      Some (Inr [commit_M, commit_B], repo')"
    using CommitsBetween_walk [of "Some commit_M" commit_M history_repo "Some commit_R" commit_R
        "[commit_M, commit_B]"] par w1 coherent_history by blast
  have two: "\<exists>repo'. CommitsBetween history_repo (Some commit_M) (Some commit_X) =
      Some (Inr [commit_M, commit_B, commit_R], repo')"
    using CommitsBetween_walk [of "Some commit_M" commit_M history_repo "Some commit_X" commit_X
        "[commit_M, commit_B, commit_R]"] par w2 coherent_history by blast
  have three: "CommitsBetween history_repo (Some commit_R) (Some commit_X) = Some (Inr [], history_repo)"
    using CommitsBetween_walk [of "Some commit_R" commit_R history_repo "Some commit_X"] par by blast
  have four: "\<exists>repo'. CommitsBetween broken_repo (Some commit_E) (Some commit_X) =
      Some (Inl (ErrExternal 1), repo')"
    using CommitsBetween_walk [of "Some commit_E" commit_E broken_repo "Some commit_X" commit_X
        "[]" "Suc 0" "ErrExternal 1"] par w3 co by blast
  have five: "CommitsBetween history_repo (Some commit_M) None = Some (Inl PanicNilPointer, history_repo)"
    using CommitsBetween_walk [of "Some commit_M" commit_M history_repo None] par by blast
  show ?thesis
    using one two three four five by blast
qed


subsection \<open>Properties of commitsBefore\<close>

lemma ordered_Values: "ordered l = time_ordered (Values l)"
  by (simp add: ordered_def time_ordered_def Values_def sorted_wrt_map)

lemma insert_after_split:
  "e \<notin> fst ` set xs \<Longrightarrow> insert_after e new (xs @ (e, v) # ys) = xs @ (e, v) # new # ys"
  by (induction xs) auto

lemma scan_After:
  assumes "scan c suf = After e" and "ordered suf"
    and "Committer_When c \<le> Committer_When (snd (hd suf))"
  shows "\<exists>s1 v s2. suf = s1 @ (e, v) # s2
           \<and> (\<forall>y\<in>set s1. Committer_When c \<le> Committer_When (snd y))
           \<and> Committer_When c \<le> Committer_When v
           \<and> (\<forall>y\<in>set s2. Committer_When (snd y) \<le> Committer_When c)"
  using assms
proof (induction c suf rule: scan.induct)
  case (1 commit)
  then show ?case by simp
next
  case (2 commit e0 v0)
  then have "e = e0" by (simp split: if_splits)
  then have "[(e0, v0)] = [] @ (e, v0) # []
      \<and> (\<forall>y\<in>set []. Committer_When commit \<le> Committer_When (snd y))
      \<and> Committer_When commit \<le> Committer_When v0
      \<and> (\<forall>y\<in>set []. Committer_When (snd y) \<le> Committer_When commit)"
    using 2 by simp
  then show ?case by blast
next
  case (3 commit e0 v0 e1 v1 rest)
  have ne: "commit_Id v0 \<noteq> commit_Id commit"
    using 3(2) by (auto split: if_splits)
  have le0: "Committer_When commit \<le> Committer_When v0"
    using 3(4) by simp
  have sorted: "\<forall>y\<in>set ((e1, v1) # rest). Committer_When (snd y) \<le> Committer_When v0"
    using 3(3) by (auto simp: ordered_def)
  have sorted1: "\<forall>y\<in>set rest. Committer_When (snd y) \<le> Committer_When v1"
    using 3(3) by (auto simp: ordered_def)
  show ?case
  proof (cases "Committer_When v0 = Committer_When commit
      \<or> (Committer_When v0 > Committer_When commit \<and> Committer_When v1 < Committer_When commit)")
    case True
    then have e: "e = e0" using 3(2) ne by (auto split: if_splits)
    have "\<forall>y\<in>set ((e1, v1) # rest). Committer_When (snd y) \<le> Committer_When commit"
      using True sorted sorted1 by fastforce
    then have "(e0, v0) # (e1, v1) # rest = [] @ (e, v0) # ((e1, v1) # rest)
        \<and> (\<forall>y\<in>set []. Committer_When commit \<le> Committer_When (snd y))
        \<and> Committer_When commit \<le> Committer_When v0
        \<and> (\<forall>y\<in>set ((e1, v1) # rest). Committer_When (snd y) \<le> Committer_When commit)"
      using e le0 by simp
    then show ?thesis by blast
  next
    case False
    then have rec: "scan commit ((e1, v1) # rest) = After e"
      using 3(2) ne by (auto split: if_splits)
    have le1: "Committer_When commit \<le> Committer_When (snd (e1, v1))"
      using False le0 by auto
    have ord: "ordered ((e1, v1) # rest)"
      using 3(3) by (simp add: ordered_def)
    from 3(1) [OF ne _ _ rec ord] le1 False
    obtain s1 v s2 where s: "(e1, v1) # rest = s1 @ (e, v) # s2"
      and b1: "\<forall>y\<in>set s1. Committer_When commit \<le> Committer_When (snd y)"
      and b2: "Committer_When commit \<le> Committer_When v"
      and b3: "\<forall>y\<in>set s2. Committer_When (snd y) \<le> Committer_When commit"
      by auto
    have "(e0, v0) # (e1, v1) # rest = ((e0, v0) # s1) @ (e, v) # s2
        \<and> (\<forall>y\<in>set ((e0, v0) # s1). Committer_When commit \<le> Committer_When (snd y))"
      using s b1 le0 by simp
    then show ?thesis using b2 b3 by blast
  qed
qed

lemma split_at_key:
  assumes "distinct (map fst l)" and "(e, v) \<in> set l"
  shows "\<exists>xs ys. l = xs @ (e, v) # ys \<and> e \<notin> fst ` set xs \<and> e \<notin> fst ` set ys"
proof -
  obtain xs ys where l: "l = xs @ (e, v) # ys"
    using assms(2) by (meson split_list)
  then have "e \<notin> fst ` set xs \<and> e \<notin> fst ` set ys"
    using assms(1) by auto
  then show ?thesis using l by blast
qed

lemma from_elem_split: "e \<notin> fst ` set xs \<Longrightarrow> from_elem e (xs @ (e, v) # ys) = (e, v) # ys"
  by (induction xs) (auto simp: from_elem_def)

lemma sorted_wrt_insert:
  "sorted_wrt R (ps @ qs) \<Longrightarrow> (\<forall>x\<in>set ps. R x n) \<Longrightarrow> (\<forall>y\<in>set qs. R n y) \<Longrightarrow>
     sorted_wrt R (ps @ n # qs)"
  by (auto simp: sorted_wrt_append)

lemma anchored_mono: "anchored l p t \<Longrightarrow> t' \<le> t \<Longrightarrow> anchored l p t'"
  by (cases p) (auto simp: anchored_def list_all_iff list_ex_iff)

lemma anchored_subset: "anchored l (Some a) t \<Longrightarrow> set l \<subseteq> set l' \<Longrightarrow> anchored l' (Some a) t"
  by (auto simp: anchored_def list_ex_iff)

lemma place_PushBack:
  assumes "keys_ok l" and "ordered l" and "anchored l None (Committer_When c)"
  shows "keys_ok (l @ [(length l, c)]) \<and> ordered (l @ [(length l, c)])"
proof -
  have "length l \<notin> fst ` set l"
    using assms(1) by (auto simp: keys_ok_def list_all_iff)
  then have "keys_ok (l @ [(length l, c)])"
    using assms(1) by (auto simp: keys_ok_def list_all_iff)
  moreover have "ordered (l @ [(length l, c)])"
    using assms(2,3) by (auto simp: ordered_def anchored_def sorted_wrt_append list_all_iff)
  ultimately show ?thesis by simp
qed

lemma place_InsertAfter:
  assumes keys: "keys_ok l" and ord: "ordered l"
    and anc: "anchored l (Some a) (Committer_When c)"
    and sc: "scan c (from_elem a l) = After e"
  shows "\<exists>ps w qs. l = ps @ (e, w) # qs
           \<and> InsertAfter l c e = (ps @ (e, w) # (length l, c) # qs, Some (length l))
           \<and> keys_ok (ps @ (e, w) # (length l, c) # qs)
           \<and> ordered (ps @ (e, w) # (length l, c) # qs)"
proof -
  let ?t = "Committer_When c"
  obtain v where av: "(a, v) \<in> set l" and tv: "?t \<le> Committer_When v"
    using anc by (auto simp: anchored_def list_ex_iff)
  have dist: "distinct (map fst l)" using keys by (simp add: keys_ok_def)
  obtain xs ys where l: "l = xs @ (a, v) # ys" and axs: "a \<notin> fst ` set xs"
    using split_at_key [OF dist av] by blast
  have suf: "from_elem a l = (a, v) # ys"
    using l axs by (simp add: from_elem_split)
  have ord_suf: "ordered ((a, v) # ys)"
    using ord l by (simp add: ordered_def sorted_wrt_append)
  have "?t \<le> Committer_When (snd (hd ((a, v) # ys)))" using tv by simp
  from scan_After [OF sc [unfolded suf] ord_suf this]
  obtain s1 w s2 where s: "(a, v) # ys = s1 @ (e, w) # s2"
    and b1: "\<forall>y\<in>set s1. ?t \<le> Committer_When (snd y)"
    and b2: "?t \<le> Committer_When w"
    and b3: "\<forall>y\<in>set s2. Committer_When (snd y) \<le> ?t"
    by blast
  have l2: "l = (xs @ s1) @ (e, w) # s2" using l s by simp
  have e_front: "e \<notin> fst ` set (xs @ s1)"
    using dist unfolding l2 by auto
  have e_in: "e \<in> set (map fst l)" unfolding l2 by simp
  have ins: "InsertAfter l c e = ((xs @ s1) @ (e, w) # (length l, c) # s2, Some (length l))"
    unfolding InsertAfter_def using e_in insert_after_split [OF e_front] l2
    by (metis (no_types, lifting))
  have bxs: "\<forall>y\<in>set xs. ?t \<le> Committer_When (snd y)"
  proof
    fix y assume "y \<in> set xs"
    then have "Committer_When v \<le> Committer_When (snd y)"
      using ord l by (auto simp: ordered_def sorted_wrt_append)
    then show "?t \<le> Committer_When (snd y)" using tv by simp
  qed
  have "sorted_wrt (\<lambda>x y. Committer_When (snd x) \<ge> Committer_When (snd y))
          (((xs @ s1) @ [(e, w)]) @ (length l, c) # s2)"
  proof (rule sorted_wrt_insert)
    show "sorted_wrt (\<lambda>x y. Committer_When (snd x) \<ge> Committer_When (snd y)) (((xs @ s1) @ [(e, w)]) @ s2)"
      using ord l2 by (simp add: ordered_def)
    show "\<forall>x\<in>set ((xs @ s1) @ [(e, w)]). Committer_When (snd (length l, c)) \<le> Committer_When (snd x)"
      using bxs b1 b2 by auto
    show "\<forall>y\<in>set s2. Committer_When (snd y) \<le> Committer_When (snd (length l, c))"
      using b3 by simp
  qed
  then have ord': "ordered ((xs @ s1) @ (e, w) # (length l, c) # s2)"
    by (simp add: ordered_def)
  define n where "n = length l"
  have fresh: "n \<notin> fst ` set l" and small: "\<forall>x\<in>set l. fst x < n"
    using keys by (auto simp: keys_ok_def list_all_iff n_def)
  have "distinct (map fst ((xs @ s1) @ (e, w) # (n, c) # s2))"
    using dist fresh unfolding l2 by auto
  moreover have "\<forall>x\<in>set ((xs @ s1) @ (e, w) # (n, c) # s2). fst x < Suc n"
    using small unfolding l2 by (auto simp: less_SucI)
  moreover have "length ((xs @ s1) @ (e, w) # (n, c) # s2) = Suc n"
  proof -
    have "n = length ((xs @ s1) @ (e, w) # s2)" using l2 n_def by simp
    then show ?thesis by simp
  qed
  ultimately have "keys_ok ((xs @ s1) @ (e, w) # (n, c) # s2)"
    unfolding keys_ok_def by (simp add: list_all_iff)
  then have keys': "keys_ok ((xs @ s1) @ (e, w) # (length l, c) # s2)"
    by (simp add: n_def)
  show ?thesis using l2 ins keys' ord' by blast
qed

lemma place_Placed:
  assumes "keys_ok l" and "ordered l" and "anchored l parent (Committer_When c)"
    and "place l parent c = Placed l' e'"
  shows "keys_ok l' \<and> ordered l' \<and> set l \<subseteq> set l' \<and> e' = Some (length l)
         \<and> (length l, c) \<in> set l' \<and> (parent = None \<longrightarrow> l' = l @ [(length l, c)])"
proof (cases parent)
  case None
  then have "l' = l @ [(length l, c)]" and "e' = Some (length l)"
    using assms(4) by (auto simp: place_def PushBack_def)
  then show ?thesis
    using place_PushBack [of l c] assms(1,2,3) None by auto
next
  case (Some a)
  then obtain e where sc: "scan c (from_elem a l) = After e"
    and ins: "InsertAfter l c e = (l', e')"
    using assms(4) by (auto simp: place_def split: scan_result.splits prod.splits)
  from place_InsertAfter [OF assms(1,2) assms(3) [unfolded Some] sc]
  obtain ps w qs where "l = ps @ (e, w) # qs"
    "InsertAfter l c e = (ps @ (e, w) # (length l, c) # qs, Some (length l))"
    "keys_ok (ps @ (e, w) # (length l, c) # qs)" "ordered (ps @ (e, w) # (length l, c) # qs)"
    by blast
  then show ?thesis using ins Some by auto
qed

lemma parents_not_younger_cong: "load r = load repo \<Longrightarrow> parents_not_younger r = parents_not_younger repo"
  by (simp add: parents_not_younger_def)

lemma loop_anchor_call:
  assumes "loop_anchor l pr commit i" and "i < ParentCount commit"
    and "t \<le> Committer_When commit"
  shows "anchored l pr t"
proof (cases pr)
  case None
  then have "i = 0" using assms(1,2) by (simp add: loop_anchor_def)
  then have "anchored l None (Committer_When commit)"
    using assms(1) None by (simp add: loop_anchor_def)
  then show ?thesis using None assms(3) anchored_mono by blast
next
  case (Some a)
  then have "anchored l (Some a) (Committer_When commit)"
    using assms(1) by (simp add: loop_anchor_def)
  then show ?thesis using Some assms(3) anchored_mono by blast
qed

lemma loop_anchor_next:
  assumes "loop_anchor l pr commit i" and "set l \<subseteq> set l'"
  shows "loop_anchor l' pr commit (Suc i)"
proof (cases pr)
  case None
  then show ?thesis using assms(1) by (simp add: loop_anchor_def)
next
  case (Some a)
  then show ?thesis using assms anchored_subset [of l a _ l'] by (simp add: loop_anchor_def)
qed

lemma commitsBefore_parents_ok:
  assumes ok: "call_ok call"
    and mono: "\<forall>p\<in>set (commit_parents commit). \<forall>d. ld p = Inr d \<longrightarrow> Committer_When d \<le> Committer_When commit"
  shows "coherent repo \<Longrightarrow> load repo = ld \<Longrightarrow> parents_not_younger repo \<Longrightarrow> keys_ok l \<Longrightarrow> ordered l \<Longrightarrow>
         loop_anchor l pr commit i \<Longrightarrow>
         commitsBefore_parents call repo l pr commit i = Some (err, repo', l') \<Longrightarrow>
         coherent repo' \<and> load repo' = ld \<and> keys_ok l' \<and> ordered l' \<and> set l \<subseteq> set l'"
proof (induction "ParentCount commit - i" arbitrary: i repo l)
  case 0
  then have "\<not> i < ParentCount commit" by simp
  then have "commitsBefore_parents call repo l pr commit i = Some (None, repo, l)"
    by (subst commitsBefore_parents.simps) simp
  then show ?case using 0 by simp
next
  case (Suc n)
  then have lt: "i < ParentCount commit" by simp
  let ?p = "commit_parents commit ! i"
  have pid: "ParentId commit i = Inr ?p"
    using lt by (simp add: ParentId_def ParentCount_def)
  have pin: "?p \<in> set (commit_parents commit)"
    using lt by (simp add: ParentCount_def)
  have pre: "\<forall>c. load repo ?p = Inr c \<longrightarrow> anchored l pr (Committer_When c)"
  proof (intro allI impI)
    fix c assume "load repo ?p = Inr c"
    then have "Committer_When c \<le> Committer_When commit"
      using mono pin Suc.prems(2) by blast
    then show "anchored l pr (Committer_When c)"
      using loop_anchor_call [OF Suc.prems(6) lt] by blast
  qed
  have unfold: "commitsBefore_parents call repo l pr commit i =
      (case call repo l pr ?p of
         None \<Rightarrow> None
       | Some (Some err, repo', l') \<Rightarrow> Some (Some err, repo', l')
       | Some (None, repo', l') \<Rightarrow> commitsBefore_parents call repo' l' pr commit (Suc i))"
    using lt pid by (subst commitsBefore_parents.simps) simp
  obtain e1 r1 l1 where call: "call repo l pr ?p = Some (e1, r1, l1)"
    using Suc.prems(7) unfold by (cases "call repo l pr ?p") auto
  have post: "coherent r1 \<and> load r1 = load repo \<and> keys_ok l1 \<and> ordered l1 \<and> set l \<subseteq> set l1"
    using ok [unfolded call_ok_def, rule_format, OF Suc.prems(1) Suc.prems(3) Suc.prems(4) Suc.prems(5) _ call]
      pre by blast
  show ?case
  proof (cases e1)
    case (Some e)
    then have "(err, repo', l') = (Some e, r1, l1)"
      using Suc.prems(7) unfold call by simp
    then show ?thesis using post Suc.prems(2) by simp
  next
    case None
    then have rest: "commitsBefore_parents call r1 l1 pr commit (Suc i) = Some (err, repo', l')"
      using Suc.prems(7) unfold call by simp
    have n: "n = ParentCount commit - Suc i" using Suc.hyps(2) by simp
    have pny: "parents_not_younger r1"
      using post Suc.prems(3) parents_not_younger_cong by blast
    have "coherent repo' \<and> load repo' = ld \<and> keys_ok l' \<and> ordered l' \<and> set l1 \<subseteq> set l'"
      using Suc.hyps(1) [OF n _ _ pny _ _ loop_anchor_next [OF Suc.prems(6)] rest]
        post Suc.prems(2) by simp
    then show ?thesis using post by blast
  qed
qed

lemma commitsBefore_step:
  assumes "coherent repo" and "load repo oid = Inr commit"
  shows "commitsBefore (Suc depth) repo l parent oid =
     (case place l parent commit of
        Returned \<Rightarrow> Some (None, snd (getCommit repo oid), l)
      | Panicked \<Rightarrow> Some (Some PanicNilPointer, snd (getCommit repo oid), l)
      | Placed l' e \<Rightarrow>
          commitsBefore_parents (commitsBefore depth) (snd (getCommit repo oid)) l'
            (if ParentCount commit > 1 then e else parent) commit 0)"
proof -
  obtain r1 where "getCommit repo oid = (Inr commit, r1)"
    using getCommit_load [OF assms(1), of oid] assms(2) by simp
  then show ?thesis
    by (simp add: Let_def del: commitsBefore_parents.simps split: placement.splits)
qed

lemma commitsBefore_fail:
  assumes "coherent repo" and "load repo oid = Inl e"
  shows "commitsBefore (Suc depth) repo l parent oid = Some (Some e, snd (getCommit repo oid), l)"
proof -
  obtain r1 where "getCommit repo oid = (Inl e, r1)"
    using getCommit_load [OF assms(1), of oid] assms(2) by simp
  then show ?thesis by simp
qed

lemma commitsBefore_ok: "call_ok (commitsBefore depth)"
proof (induction depth)
  case 0
  show ?case by (simp add: call_ok_def)
next
  case (Suc depth)
  show ?case
    unfolding call_ok_def
  proof (intro allI impI)
    fix repo :: "'a Repository" and l parent oid err repo' l'
    assume co: "coherent repo" and pny: "parents_not_younger repo"
      and keys: "keys_ok l" and ord: "ordered l"
      and anc: "\<forall>c. load repo oid = Inr c \<longrightarrow> anchored l parent (Committer_When c)"
      and run: "commitsBefore (Suc depth) repo l parent oid = Some (err, repo', l')"
    let ?r1 = "snd (getCommit repo oid)"
    have co1: "coherent ?r1" by (rule getCommit_coherent(2) [OF co])
    have ld1: "load ?r1 = load repo" by simp
    show "coherent repo' \<and> load repo' = load repo \<and> keys_ok l' \<and> ordered l' \<and> set l \<subseteq> set l'"
    proof (cases "load repo oid")
      case (Inl e)
      have "Some (Some e, ?r1, l) = Some (err, repo', l')"
        using run unfolding commitsBefore_fail [OF co Inl] .
      then show ?thesis
        using co1 ld1 keys ord by auto
    next
      case (Inr commit)
      have step: "(case place l parent commit of
            Returned \<Rightarrow> Some (None, ?r1, l)
          | Panicked \<Rightarrow> Some (Some PanicNilPointer, ?r1, l)
          | Placed l1 e \<Rightarrow>
              commitsBefore_parents (commitsBefore depth) ?r1 l1
                (if ParentCount commit > 1 then e else parent) commit 0) = Some (err, repo', l')"
        using run unfolding commitsBefore_step [OF co Inr] .
      have anc': "anchored l parent (Committer_When commit)" using anc Inr by blast
      show ?thesis
      proof (cases "place l parent commit")
        case Returned
        then show ?thesis using step co1 ld1 keys ord by auto
      next
        case Panicked
        then show ?thesis using step co1 ld1 keys ord by auto
      next
        case (Placed l1 e)
        from place_Placed [OF keys ord anc' Placed]
        have k1: "keys_ok l1" and o1: "ordered l1" and sub: "set l \<subseteq> set l1"
          and e: "e = Some (length l)" and mem: "(length l, commit) \<in> set l1"
          and push: "parent = None \<longrightarrow> l1 = l @ [(length l, commit)]"
          by simp_all
        let ?pr = "if ParentCount commit > 1 then e else parent"
        have loop: "commitsBefore_parents (commitsBefore depth) ?r1 l1 ?pr commit 0 = Some (err, repo', l')"
          using step Placed by simp
        have mono: "\<forall>p\<in>set (commit_parents commit). \<forall>d. load repo p = Inr d \<longrightarrow>
            Committer_When d \<le> Committer_When commit"
          using pny Inr unfolding parents_not_younger_def by blast
        have self: "anchored l1 (Some (length l)) (Committer_When commit)"
          using mem by (force simp: anchored_def list_ex_iff)
        have la: "loop_anchor l1 ?pr commit 0"
        proof (cases "ParentCount commit > 1")
          case True
          then show ?thesis using self e by (simp add: loop_anchor_def)
        next
          case False
          show ?thesis
          proof (cases parent)
            case None
            then have "l1 = l @ [(length l, commit)]" using push by simp
            moreover have "list_all (\<lambda>x. Committer_When commit \<le> Committer_When (snd x)) l"
              using anc' None by (simp add: anchored_def)
            ultimately have "anchored l1 None (Committer_When commit)"
              by (simp add: anchored_def)
            then show ?thesis using False None by (simp add: loop_anchor_def)
          next
            case (Some a)
            then have "anchored l1 (Some a) (Committer_When commit)"
              using anc' sub anchored_subset by blast
            then show ?thesis using False Some by (simp add: loop_anchor_def)
          qed
        qed
        have pny1: "parents_not_younger ?r1"
          using pny parents_not_younger_cong [OF ld1] by simp
        from commitsBefore_parents_ok [OF Suc mono co1 ld1 pny1 k1 o1 la loop]
        show ?thesis using sub by blast
      qed
    qed
  qed
qed

lemma getCommitsBefore_ordered:
  assumes "coherent repo" and "parents_not_younger repo"
    and "getCommitsBefore depth repo oid = Some (err, repo', l)"
  shows "time_ordered (Values l)"
proof -
  have "keys_ok ([] :: 'a Commit List)" "ordered ([] :: 'a Commit List)"
    "\<forall>c. load repo oid = Inr c \<longrightarrow> anchored [] None (Committer_When c)"
    by (simp_all add: keys_ok_def ordered_def anchored_def)
  then have "ordered l"
    using commitsBefore_ok [of depth, unfolded call_ok_def, rule_format,
        OF assms(1) assms(2) _ _ _ assms(3) [unfolded getCommitsBefore_def]]
    by blast
  then show ?thesis by (simp add: ordered_Values)
qed

lemma load_Id: "load repo oid = Inr c \<Longrightarrow> commit_Id c = oid"
  by (auto simp: load_def split: sum.splits)

lemma parents_loop_done:
  "\<not> i < ParentCount commit \<Longrightarrow> commitsBefore_parents call r l pr commit i = Some (None, r, l)"
  by (subst commitsBefore_parents.simps) simp

lemma parents_loop_next:
  "i < ParentCount commit \<Longrightarrow> call r l pr (commit_parents commit ! i) = Some (None, r', l') \<Longrightarrow>
     commitsBefore_parents call r l pr commit i = commitsBefore_parents call r' l' pr commit (Suc i)"
  by (subst commitsBefore_parents.simps) (simp add: ParentId_def ParentCount_def)

lemma getCommitsBefore_diamond:
  assumes co: "coherent repo"
    and M: "load repo M = Inr cM" "commit_parents cM = [B, A]"
    and B: "load repo B = Inr cB" "commit_parents cB = [R]"
    and A: "load repo A = Inr cA" "commit_parents cA = [R]"
    and R: "load repo R = Inr cR" "commit_parents cR = []"
    and tMB: "Committer_When cM > Committer_When cB"
    and tBA: "Committer_When cB > Committer_When cA"
    and tAR: "Committer_When cA > Committer_When cR"
  shows "\<exists>repo'. getCommitsBefore (Suc (Suc (Suc k))) repo M =
           Some (None, repo', [(0, cM), (1, cB), (3, cA), (2, cR)])"
proof -
  have ids: "commit_Id cM = M" "commit_Id cB = B" "commit_Id cA = A" "commit_Id cR = R"
    using M B A R by (simp_all add: load_Id)
  have ne: "M \<noteq> B" "M \<noteq> A" "M \<noteq> R" "B \<noteq> A" "B \<noteq> R" "A \<noteq> R"
    using M B A R tMB tBA tAR by auto
  have pc: "ParentCount cM = 2" "ParentCount cB = 1" "ParentCount cA = 1" "ParentCount cR = 0"
    using M B A R by (simp_all add: ParentCount_def)
  note defs = place_def from_elem_def InsertAfter_def PushBack_def
  have leafR: "\<exists>r'. commitsBefore (Suc d) r [(0, cM), (1, cB)] (Some 0) R =
        Some (None, r', [(0, cM), (1, cB), (2, cR)]) \<and> coherent r' \<and> load r' = load repo"
    if r: "coherent r" "load r = load repo" for r d
  proof -
    have pl: "place [(0, cM), (1, cB)] (Some 0) cR = Placed [(0, cM), (1, cB), (2, cR)] (Some 2)"
      using ids ne tMB tBA tAR by (simp add: defs)
    have "load r R = Inr cR" using r R by simp
    from commitsBefore_step [OF r(1) this, of d "[(0, cM), (1, cB)]" "Some 0"]
    have "commitsBefore (Suc d) r [(0, cM), (1, cB)] (Some 0) R =
        Some (None, snd (getCommit r R), [(0, cM), (1, cB), (2, cR)])"
      using pl pc by (simp add: parents_loop_done del: commitsBefore.simps commitsBefore_parents.simps)
    then show ?thesis using r getCommit_coherent(2) [OF r(1), of R] by simp
  qed
  have chainB: "\<exists>r'. commitsBefore (Suc (Suc d)) r [(0, cM)] (Some 0) B =
        Some (None, r', [(0, cM), (1, cB), (2, cR)]) \<and> coherent r' \<and> load r' = load repo"
    if r: "coherent r" "load r = load repo" for r d
  proof -
    let ?r1 = "snd (getCommit r B)"
    have r1: "coherent ?r1" "load ?r1 = load repo"
      using r getCommit_coherent(2) [OF r(1), of B] by simp_all
    have pl: "place [(0, cM)] (Some 0) cB = Placed [(0, cM), (1, cB)] (Some 1)"
      using ids ne by (simp add: defs)
    obtain r2 where r2: "commitsBefore (Suc d) ?r1 [(0, cM), (1, cB)] (Some 0) R =
        Some (None, r2, [(0, cM), (1, cB), (2, cR)])" "coherent r2" "load r2 = load repo"
      using leafR [OF r1] by blast
    have "load r B = Inr cB" using r B by simp
    from commitsBefore_step [OF r(1) this, of "Suc d" "[(0, cM)]" "Some 0"]
    have "commitsBefore (Suc (Suc d)) r [(0, cM)] (Some 0) B =
        commitsBefore_parents (commitsBefore (Suc d)) ?r1 [(0, cM), (1, cB)] (Some 0) cB 0"
      using pl pc by (simp del: commitsBefore.simps commitsBefore_parents.simps)
    also have "\<dots> = commitsBefore_parents (commitsBefore (Suc d)) r2 [(0, cM), (1, cB), (2, cR)] (Some 0) cB (Suc 0)"
      using r2(1) pc B by (intro parents_loop_next) simp_all
    also have "\<dots> = Some (None, r2, [(0, cM), (1, cB), (2, cR)])"
      using pc by (intro parents_loop_done) simp
    finally show ?thesis using r2 by blast
  qed
  have foundR: "\<exists>r'. commitsBefore (Suc d) r [(0, cM), (1, cB), (3, cA), (2, cR)] (Some 0) R =
        Some (None, r', [(0, cM), (1, cB), (3, cA), (2, cR)]) \<and> coherent r' \<and> load r' = load repo"
    if r: "coherent r" "load r = load repo" for r d
  proof -
    have pl: "place [(0, cM), (1, cB), (3, cA), (2, cR)] (Some 0) cR = Returned"
      using ids ne tMB tBA tAR by (simp add: defs)
    have "load r R = Inr cR" using r R by simp
    from commitsBefore_step [OF r(1) this, of d "[(0, cM), (1, cB), (3, cA), (2, cR)]" "Some 0"]
    have "commitsBefore (Suc d) r [(0, cM), (1, cB), (3, cA), (2, cR)] (Some 0) R =
        Some (None, snd (getCommit r R), [(0, cM), (1, cB), (3, cA), (2, cR)])"
      using pl by (simp del: commitsBefore.simps commitsBefore_parents.simps)
    then show ?thesis using r getCommit_coherent(2) [OF r(1), of R] by simp
  qed
  have chainA: "\<exists>r'. commitsBefore (Suc (Suc d)) r [(0, cM), (1, cB), (2, cR)] (Some 0) A =
        Some (None, r', [(0, cM), (1, cB), (3, cA), (2, cR)]) \<and> coherent r' \<and> load r' = load repo"
    if r: "coherent r" "load r = load repo" for r d
  proof -
    let ?r1 = "snd (getCommit r A)"
    have r1: "coherent ?r1" "load ?r1 = load repo"
      using r getCommit_coherent(2) [OF r(1), of A] by simp_all
    have pl: "place [(0, cM), (1, cB), (2, cR)] (Some 0) cA =
        Placed [(0, cM), (1, cB), (3, cA), (2, cR)] (Some 3)"
      using ids ne tMB tBA tAR by (simp add: defs)
    obtain r2 where r2: "commitsBefore (Suc d) ?r1 [(0, cM), (1, cB), (3, cA), (2, cR)] (Some 0) R =
        Some (None, r2, [(0, cM), (1, cB), (3, cA), (2, cR)])" "coherent r2" "load r2 = load repo"
      using foundR [OF r1] by blast
    have "load r A = Inr cA" using r A by simp
    from commitsBefore_step [OF r(1) this, of "Suc d" "[(0, cM), (1, cB), (2, cR)]" "Some 0"]
    have "commitsBefore (Suc (Suc d)) r [(0, cM), (1, cB), (2, cR)] (Some 0) A =
        commitsBefore_parents (commitsBefore (Suc d)) ?r1 [(0, cM), (1, cB), (3, cA), (2, cR)] (Some 0) cA 0"
      using pl pc by (simp del: commitsBefore.simps commitsBefore_parents.simps)
    also have "\<dots> = commitsBefore_parents (commitsBefore (Suc d)) r2
        [(0, cM), (1, cB), (3, cA), (2, cR)] (Some 0) cA (Suc 0)"
      using r2(1) pc A by (intro parents_loop_next) simp_all
    also have "\<dots> = Some (None, r2, [(0, cM), (1, cB), (3, cA), (2, cR)])"
      using pc by (intro parents_loop_done) simp
    finally show ?thesis using r2 by blast
  qed
  let ?r1 = "snd (getCommit repo M)"
  have r1: "coherent ?r1" "load ?r1 = load repo"
    using getCommit_coherent(2) [OF co, of M] by simp_all
  obtain r2 where r2: "commitsBefore (Suc (Suc k)) ?r1 [(0, cM)] (Some 0) B =
      Some (None, r2, [(0, cM), (1, cB), (2, cR)])" "coherent r2" "load r2 = load repo"
    using chainB [OF r1] by blast
  obtain r3 where r3: "commitsBefore (Suc (Suc k)) r2 [(0, cM), (1, cB), (2, cR)] (Some 0) A =
      Some (None, r3, [(0, cM), (1, cB), (3, cA), (2, cR)])"
    using chainA [OF r2(2,3)] by blast
  have pl: "place [] None cM = Placed [(0, cM)] (Some 0)"
    by (simp add: defs)
  from commitsBefore_step [OF co M(1), of "Suc (Suc k)" "[]" None]
  have "commitsBefore (Suc (Suc (Suc k))) repo [] None M =
      commitsBefore_parents (commitsBefore (Suc (Suc k))) ?r1 [(0, cM)] (Some 0) cM 0"
    using pl pc by (simp del: commitsBefore.simps commitsBefore_parents.simps)
  also have "\<dots> = commitsBefore_parents (commitsBefore (Suc (Suc k))) r2
      [(0, cM), (1, cB), (2, cR)] (Some 0) cM (Suc 0)"
    using r2(1) pc M by (intro parents_loop_next) simp_all
  also have "\<dots> = commitsBefore_parents (commitsBefore (Suc (Suc k))) r3
      [(0, cM), (1, cB), (3, cA), (2, cR)] (Some 0) cM (Suc (Suc 0))"
    using r3 pc M by (intro parents_loop_next) simp_all
  also have "\<dots> = Some (None, r3, [(0, cM), (1, cB), (3, cA), (2, cR)])"
    using pc by (intro parents_loop_done) simp
  finally show ?thesis by (simp add: getCommitsBefore_def del: commitsBefore.simps)
qed

lemma commitsBefore_eval:
  assumes "coherent repo"
  shows "commitsBefore (Suc depth) repo l parent oid =
     (case load repo oid of
        Inl err \<Rightarrow> Some (Some err, snd (getCommit repo oid), l)
      | Inr commit \<Rightarrow>
          (case place l parent commit of
             Returned \<Rightarrow> Some (None, snd (getCommit repo oid), l)
           | Panicked \<Rightarrow> Some (Some PanicNilPointer, snd (getCommit repo oid), l)
           | Placed l' e \<Rightarrow>
               commitsBefore_parents (commitsBefore depth) (snd (getCommit repo oid)) l'
                 (if ParentCount commit > 1 then e else parent) commit 0))"
proof (cases "load repo oid")
  case (Inl e)
  then show ?thesis using commitsBefore_fail [OF assms Inl] by simp
next
  case (Inr commit)
  then show ?thesis using commitsBefore_step [OF assms Inr] by simp
qed

lemma coherent_getCommit [simp]: "coherent repo \<Longrightarrow> coherent (snd (getCommit repo oid))"
  by (rule getCommit_coherent(2))

lemma skewed_run:
  "returned_list (getCommitsBefore 2 skewed_repo ''X'') = Some (None, [commit_X, commit_Y])"
proof -
  have co: "coherent skewed_repo" by (simp add: skewed_repo_def coherent_repo_of)
  have "ParentCount commit_X = 1" "ParentCount commit_Y = 0"
    "commit_parents commit_X = [''Y'']"
    by (simp_all add: ParentCount_def commit_X_def commit_Y_def)
  then show ?thesis
    unfolding getCommitsBefore_def numeral_2_eq_2
    by (simp add: commitsBefore_eval co load_skewed place_def PushBack_def ParentId_def
        returned_list_def Values_def del: commitsBefore.simps)
qed

lemma octopus_run:
  "returned_list (getCommitsBefore 2 history_repo ''O'') =
     Some (None, [commit_O, commit_P, commit_S, commit_Q])"
proof -
  have "ParentCount commit_O = 3" "ParentCount commit_P = 0" "ParentCount commit_Q = 0"
    "ParentCount commit_S = 0" "commit_parents commit_O = [''P'', ''Q'', ''S'']"
    "commit_Id commit_O = ''O''" "commit_Id commit_P = ''P''" "commit_Id commit_Q = ''Q''"
    "commit_Id commit_S = ''S''"
    "Committer_When commit_O = 10" "Committer_When commit_P = 5" "Committer_When commit_Q = 5"
    "Committer_When commit_S = 5"
    by (simp_all add: ParentCount_def commit_O_def commit_P_def commit_Q_def commit_S_def)
  then show ?thesis
    unfolding getCommitsBefore_def numeral_2_eq_2
    by (simp add: commitsBefore_eval coherent_history load_history place_def PushBack_def ParentId_def
        InsertAfter_def from_elem_def returned_list_def Values_def numeral_3_eq_3
        del: commitsBefore.simps)
qed

lemma load_repo_of:
  "load (repo_of objects) oid = Inr c \<Longrightarrow>
     \<exists>c0. map_of objects oid = Some c0 \<and> c = c0\<lparr>commit_Id := oid\<rparr>"
  by (auto simp: load_def repo_of_def split: if_splits option.splits)

lemma parents_not_younger_repo_of:
  assumes "store_not_younger objects"
  shows "parents_not_younger (repo_of objects)"
  unfolding parents_not_younger_def
proof (intro allI impI)
  fix oid c p d
  assume c: "load (repo_of objects) oid = Inr c" and p: "p \<in> set (commit_parents c)"
    and d: "load (repo_of objects) p = Inr d"
  obtain c0 where c0: "map_of objects oid = Some c0" "c = c0\<lparr>commit_Id := oid\<rparr>"
    using load_repo_of [OF c] by blast
  obtain d0 where d0: "map_of objects p = Some d0" "d = d0\<lparr>commit_Id := p\<rparr>"
    using load_repo_of [OF d] by blast
  have mem: "(oid, c0) \<in> set objects" using c0(1) by (rule map_of_SomeD)
  have all: "\<forall>x\<in>set objects. \<forall>p\<in>set (commit_parents (snd x)).
      (case map_of objects p of None \<Rightarrow> True
       | Some d \<Rightarrow> Committer_When d \<le> Committer_When (snd x))"
    using assms by (simp add: store_not_younger_def list_all_iff)
  have pin: "p \<in> set (commit_parents (snd (oid, c0)))" using p c0(2) by simp
  have "case map_of objects p of None \<Rightarrow> True
      | Some d \<Rightarrow> Committer_When d \<le> Committer_When (snd (oid, c0))"
    by (rule bspec [OF bspec [OF all mem] pin])
  then have "Committer_When d0 \<le> Committer_When c0"
    using d0(1) by simp
  then show "Committer_When d \<le> Committer_When c"
    using c0(2) d0(2) by simp
qed

lemma parents_not_younger_history: "parents_not_younger history_repo"
  unfolding history_repo_def
  by (rule parents_not_younger_repo_of) (simp add: store_not_younger_def history_def)

lemma returned_list_Some:
  "returned_list res = Some (err, vs) \<Longrightarrow> \<exists>repo l. res = Some (err, repo, l) \<and> Values l = vs"
  by (auto simp: returned_list_def split: option.splits)

text \<open>
  C1: for a diamond, a merge commit \<open>M\<close> with parents \<open>B\<close> and \<open>A\<close>, each with the sole
  parent \<open>R\<close>, which has none, and timestamps \<open>t(M) > t(B) > t(A) > t(R)\<close>, on a coherent
  handle \<^verbatim>\<open>CommitsBefore(M)\<close> returns without error, as soon as three nested calls are
  allowed, the list \<open>[M, B, A, R]\<close>: each commit once, \<open>R\<close> not duplicated although
  it is reached through \<open>B\<close> and through \<open>A\<close>.
\<close>

theorem CommitsBefore_diamond:
  assumes "coherent repo" and "NewIdFromString commitId = Inr M"
    and "load repo M = Inr cM" and "commit_parents cM = [B, A]"
    and "load repo B = Inr cB" and "commit_parents cB = [R]"
    and "load repo A = Inr cA" and "commit_parents cA = [R]"
    and "load repo R = Inr cR" and "commit_parents cR = []"
    and "Committer_When cM > Committer_When cB"
    and "Committer_When cB > Committer_When cA"
    and "Committer_When cA > Committer_When cR"
    and "3 \<le> depth"
  shows "\<exists>repo' l. CommitsBefore NewIdFromString depth repo commitId = Some (None, repo', l)
           \<and> Values l = [cM, cB, cA, cR]
           \<and> distinct (map commit_Id (Values l))"
proof -
  obtain k where "depth = 3 + k"
    using assms(14) le_Suc_ex by blast
  then have depth: "depth = Suc (Suc (Suc k))" by simp
  have ids: "commit_Id cM = M" "commit_Id cB = B" "commit_Id cA = A" "commit_Id cR = R"
    using assms by (simp_all add: load_Id)
  have ne: "distinct [M, B, A, R]"
    using assms by auto
  obtain repo' where "getCommitsBefore (Suc (Suc (Suc k))) repo M =
      Some (None, repo', [(0, cM), (1, cB), (3, cA), (2, cR)])"
    using getCommitsBefore_diamond [OF assms(1) assms(3-13)] by blast
  then have "CommitsBefore NewIdFromString depth repo commitId =
      Some (None, repo', [(0, cM), (1, cB), (3, cA), (2, cR)])"
    using assms(2) depth by (simp add: CommitsBefore_def)
  moreover have "Values [(0 :: nat, cM), (1, cB), (3, cA), (2, cR)] = [cM, cB, cA, cR]"
    by (simp add: Values_def)
  moreover have "distinct (map commit_Id [cM, cB, cA, cR])"
    using ids ne by simp
  ultimately have "CommitsBefore NewIdFromString depth repo commitId =
        Some (None, repo', [(0, cM), (1, cB), (3, cA), (2, cR)])
      \<and> Values [(0 :: nat, cM), (1, cB), (3, cA), (2, cR)] = [cM, cB, cA, cR]
      \<and> distinct (map commit_Id (Values [(0 :: nat, cM), (1, cB), (3, cA), (2, cR)]))"
    by simp
  then show ?thesis by (intro exI)
qed

theorem CommitsBefore_diamond_witness:
  "returned_list (CommitsBefore Inr 3 history_repo ''M'') =
     Some (None, [commit_M, commit_B, commit_A, commit_R])"
proof -
  have par: "commit_parents commit_M = [''B'', ''A'']" "commit_parents commit_B = [''R'']"
    "commit_parents commit_A = [''R'']" "commit_parents commit_R = []"
    by (simp_all add: commit_M_def commit_B_def commit_A_def commit_R_def)
  have t: "Committer_When commit_M > Committer_When commit_B"
    "Committer_When commit_B > Committer_When commit_A"
    "Committer_When commit_A > Committer_When commit_R"
    by (simp_all add: commit_M_def commit_B_def commit_A_def commit_R_def)
  have "\<exists>repo' l. CommitsBefore Inr 3 history_repo ''M'' = Some (None, repo', l)
      \<and> Values l = [commit_M, commit_B, commit_A, commit_R]
      \<and> distinct (map commit_Id (Values l))"
    by (rule CommitsBefore_diamond [where M = "''M''" and B = "''B''" and A = "''A''" and R = "''R''"])
      (simp_all add: coherent_history load_history par t)
  then show ?thesis by (auto simp: returned_list_def)
qed

text \<open>
  C2, as stated, fails. On a chain without a merge every commit is pushed at the back of
  the list whatever its timestamp: \<open>X\<close> (time 1) with parent \<open>Y\<close> (time 2) gives
  \<open>[X, Y]\<close>, where \<open>X\<close> is before its successor. And a tie is not broken by visitation
  order: the parents \<open>P\<close>, \<open>Q\<close>, \<open>S\<close> of \<open>O\<close>, all of one timestamp, are visited in this
  order, and \<open>S\<close> is inserted right after \<open>P\<close>, before \<open>Q\<close>.
\<close>

theorem CommitsBefore_order_counterexample:
  "returned_list (CommitsBefore Inr 2 skewed_repo ''X'') = Some (None, [commit_X, commit_Y])
   \<and> \<not> time_ordered [commit_X, commit_Y]
   \<and> returned_list (CommitsBefore Inr 2 history_repo ''O'') =
       Some (None, [commit_O, commit_P, commit_S, commit_Q])"
  using skewed_run octopus_run
  by (simp add: CommitsBefore_def time_ordered_def commit_X_def commit_Y_def)

text \<open>
  C2, amended: on a coherent handle whose object store holds no commit that is older than
  one of its parents, the list that \<^verbatim>\<open>CommitsBefore\<close> leaves, whether it returns an error
  or not, is in non-increasing order of committer timestamp: no element's timestamp is
  before that of the element after it. Nothing is said about the order among equal
  timestamps.
\<close>

theorem CommitsBefore_time_ordered:
  assumes "coherent repo" and "parents_not_younger repo"
    and "CommitsBefore NewIdFromString depth repo commitId = Some (err, repo', l)"
  shows "time_ordered (Values l)"
proof (cases "NewIdFromString commitId")
  case (Inl e)
  then have "l = []" using assms(3) by (simp add: CommitsBefore_def)
  then show ?thesis by (simp add: time_ordered_def Values_def)
next
  case (Inr oid)
  then have "getCommitsBefore depth repo oid = Some (err, repo', l)"
    using assms(3) by (simp add: CommitsBefore_def)
  then show ?thesis by (rule getCommitsBefore_ordered [OF assms(1,2)])
qed

theorem CommitsBefore_time_ordered_witness:
  "returned_list (CommitsBefore Inr 2 history_repo ''O'') =
     Some (None, [commit_O, commit_P, commit_S, commit_Q])
   \<and> time_ordered [commit_O, commit_P, commit_S, commit_Q]"
proof -
  have "returned_list (CommitsBefore Inr 2 history_repo ''O'') =
      Some (None, [commit_O, commit_P, commit_S, commit_Q])"
    using octopus_run by (simp add: CommitsBefore_def)
  then obtain repo' l where run: "CommitsBefore Inr 2 history_repo ''O'' = Some (None, repo', l)"
    and l: "Values l = [commit_O, commit_P, commit_S, commit_Q]"
    using returned_list_Some by blast
  have "time_ordered (Values l)"
    using CommitsBefore_time_ordered [OF coherent_history parents_not_younger_history run] .
  then show ?thesis
    using l octopus_run by (simp add: CommitsBefore_def)
qed


subsection \<open>Properties of the walker and of searchCommits\<close>

lemma fst_getCommit_view: "fst (getCommit repo oid) = view repo oid"
proof (cases "cache_entries repo oid")
  case None
  then show ?thesis
    by (auto simp: getCommit_def view_def cache_entries_def fst_getCommit_miss load_commitCache
        split: option.splits)
next
  case (Some c)
  then show ?thesis by (simp add: getCommit_hit view_def)
qed

lemma view_getCommit_miss:
  assumes "cache_entries repo = m" and "m oid = None"
  shows "view (snd (getCommit_miss repo m oid)) = view repo"
proof (rule ext)
  fix x
  show "view (snd (getCommit_miss repo m oid)) x = view repo x"
    using assms
    by (cases "load repo oid") (auto simp: view_def cache_getCommit_miss split: option.splits)
qed

lemma view_commitCache_empty:
  "commitCache repo = None \<Longrightarrow> view (repo\<lparr>commitCache := Some Map.empty\<rparr>) = view repo"
  by (rule ext) (simp add: view_def cache_entries_def load_commitCache)

lemma view_getCommit [simp]: "view (snd (getCommit repo oid)) = view repo"
proof (cases "commitCache repo")
  case None
  let ?repo = "repo\<lparr>commitCache := Some Map.empty\<rparr>"
  have "cache_entries ?repo = Map.empty" by (simp add: cache_entries_def)
  then have "view (snd (getCommit_miss ?repo Map.empty oid)) = view ?repo"
    by (rule view_getCommit_miss) simp
  then show ?thesis
    using None by (simp add: getCommit_def view_commitCache_empty)
next
  case (Some m)
  then have ce: "cache_entries repo = m" by (simp add: cache_entries_def)
  show ?thesis
  proof (cases "m oid")
    case None
    then show ?thesis
      using Some view_getCommit_miss [OF ce None] by (simp add: getCommit_def)
  next
    case (Some c)
    then show ?thesis using \<open>commitCache repo = Some m\<close> by (simp add: getCommit_def)
  qed
qed

lemma getCommit_view: "\<exists>repo'. getCommit repo oid = (view repo oid, repo') \<and> view repo' = view repo"
proof -
  obtain x r where g: "getCommit repo oid = (x, r)" by (cases "getCommit repo oid")
  then have "x = view repo oid" and "view r = view repo"
    using fst_getCommit_view [of repo oid] view_getCommit [of repo oid] by simp_all
  then show ?thesis using g by simp
qed

lemma walk_parents_ok:
  assumes ok: "walk_ok vw V Inv call"
    and cl: "\<forall>p\<in>set (commit_parents commit). \<forall>d. vw p = Inr d \<longrightarrow> V d"
  shows "view repo = vw \<Longrightarrow> Inv vs res \<Longrightarrow>
         walk_parents call repo vs res commit i = Some (Inr (stopped, vs', res'), repo') \<Longrightarrow>
         Inv vs' res' \<and> view repo' = vw"
proof (induction "ParentCount commit - i" arbitrary: i repo vs res)
  case 0
  then have "\<not> i < ParentCount commit" by simp
  then have "walk_parents call repo vs res commit i = Some (Inr (False, vs, res), repo)"
    by (subst walk_parents.simps) simp
  then show ?case using 0 by simp
next
  case (Suc n)
  then have lt: "i < ParentCount commit" by simp
  let ?p = "commit_parents commit ! i"
  have pin: "?p \<in> set (commit_parents commit)"
    using lt by (simp add: ParentCount_def)
  obtain r1 where g: "getCommit repo ?p = (view repo ?p, r1)" and v1: "view r1 = view repo"
    using getCommit_view [of repo ?p] by blast
  have par: "Parent repo commit i = (vw ?p, r1)"
    using lt g Suc.prems(1) by (simp add: Parent_def ParentId_def ParentCount_def)
  note run = Suc.prems(3)
  show ?case
  proof (cases "vw ?p")
    case (Inl e)
    have "walk_parents call repo vs res commit i = Some (Inl e, r1)"
      using lt par Inl by (subst walk_parents.simps) simp
    then show ?thesis using run by simp
  next
    case (Inr d)
    have Vd: "V d" using cl pin Inr by blast
    have unfold: "walk_parents call repo vs res commit i =
        (case call r1 vs res d of
           None \<Rightarrow> None
         | Some (Inl err, repo'') \<Rightarrow> Some (Inl err, repo'')
         | Some (Inr (stopped, vs', res'), repo'') \<Rightarrow>
             if stopped then Some (Inr (True, vs', res'), repo'')
             else walk_parents call repo'' vs' res' commit (Suc i))"
      using lt par Inr by (subst walk_parents.simps) (simp del: walk_parents.simps)
    show ?thesis
    proof (cases "call r1 vs res d")
      case None
      then show ?thesis using run unfold by (simp del: walk_parents.simps)
    next
      case (Some out)
      obtain x r2 where out: "out = (x, r2)" by (cases out)
      show ?thesis
      proof (cases x)
        case (Inl e)
        then show ?thesis using run unfold Some out by (simp del: walk_parents.simps)
      next
        case (Inr y)
        obtain st1 vs1 res1 where y: "y = (st1, vs1, res1)" by (cases y)
        have call: "call r1 vs res d = Some (Inr (st1, vs1, res1), r2)"
          using Some out Inr y by simp
        have post: "Inv vs1 res1 \<and> view r2 = vw"
          using ok [unfolded walk_ok_def, rule_format, OF _ Vd Suc.prems(2) call] v1 Suc.prems(1)
          by simp
        show ?thesis
        proof (cases st1)
          case True
          then have "Some (Inr (True, vs1, res1), r2) = Some (Inr (stopped, vs', res'), repo')"
            using run unfold call by (simp del: walk_parents.simps)
          then show ?thesis using post by simp
        next
          case False
          then have rest: "walk_parents call r2 vs1 res1 commit (Suc i) =
              Some (Inr (stopped, vs', res'), repo')"
            using run unfold call by (simp del: walk_parents.simps)
          have n: "n = ParentCount commit - Suc i" using Suc.hyps(2) by simp
          show ?thesis
            using Suc.hyps(1) [OF n _ _ rest] post by simp
        qed
      qed
    qed
  qed
qed

lemma walk_ok_walk:
  assumes cl: "parents_in vw V" and keeps: "visit_keeps V relevance Inv visit"
  shows "walk_ok vw V Inv (walk depth visit relevance)"
proof (induction depth)
  case 0
  show ?case by (simp add: walk_ok_def)
next
  case (Suc depth)
  show ?case
    unfolding walk_ok_def
  proof (intro allI impI)
    fix repo :: "'a Repository" and vs res commit stopped vs' res' repo'
    assume vw: "view repo = vw" and V: "V commit" and inv: "Inv vs res"
      and run: "walk (Suc depth) visit relevance repo vs res commit = Some (Inr (stopped, vs', res'), repo')"
    have clc: "\<forall>p\<in>set (commit_parents commit). \<forall>d. vw p = Inr d \<longrightarrow> V d"
      using cl V unfolding parents_in_def by blast
    note loop = walk_parents_ok [OF Suc clc vw]
    show "Inv vs' res' \<and> view repo' = vw"
    proof (cases "commit_Id commit \<in> set (map commit_Id res)")
      case True
      then show ?thesis using run inv vw by (simp del: walk_parents.simps)
    next
      case False
      obtain dec vs1 where dv: "(if relevant relevance commit then visit vs commit
          else (SkipAndContinue, vs)) = (dec, vs1)"
        by fastforce
      have after: "case dec of KeepAndContinue \<Rightarrow> Inv vs1 (res @ [commit]) | _ \<Rightarrow> Inv vs1 res"
      proof (cases "relevant relevance commit")
        case True
        then show ?thesis
          using keeps [unfolded visit_keeps_def, rule_format, OF V inv True] dv
          by (auto split: decision.splits)
      next
        case False
        then show ?thesis using dv inv by auto
      qed
      show ?thesis
      proof (cases dec)
        case KeepAndContinue
        then have "walk_parents (walk depth visit relevance) repo vs1 (res @ [commit]) commit 0 =
            Some (Inr (stopped, vs', res'), repo')"
          using run False dv by (simp del: walk_parents.simps)
        then show ?thesis using loop [of vs1 "res @ [commit]" 0] after KeepAndContinue by simp
      next
        case SkipAndContinue
        then have "walk_parents (walk depth visit relevance) repo vs1 res commit 0 =
            Some (Inr (stopped, vs', res'), repo')"
          using run False dv by (simp del: walk_parents.simps)
        then show ?thesis using loop [of vs1 res 0] after SkipAndContinue by simp
      next
        case Stop
        then have "vs' = vs1 \<and> res' = res \<and> repo' = repo"
          using run False dv by (simp del: walk_parents.simps)
        then show ?thesis using after Stop vw by simp
      qed
    qed
  qed
qed

lemma makePager_keeps:
  "visit_keeps (\<lambda>c. True) relevance (\<lambda>vs res. length res + snd vs \<le> n) (makePager check)"
  unfolding visit_keeps_def makePager_def
  by (auto split: prod.splits option.splits)

lemma walkFilteredHistory_bound:
  assumes "walkFilteredHistory depth repo commit (makePager check) (skip, n) relevance = Some (Inr l, repo')"
  shows "length l \<le> n"
proof -
  obtain stopped vs' where run: "walk depth (makePager check) relevance repo (skip, n) [] commit =
      Some (Inr (stopped, vs', l), repo')"
    using assms unfolding walkFilteredHistory_def
    by (auto split: option.splits sum.splits prod.splits)
  have cl: "parents_in (view repo) (\<lambda>c. True)"
    by (simp add: parents_in_def)
  have keeps: "visit_keeps (\<lambda>c. True) relevance (\<lambda>vs res. length res + snd vs \<le> n) (makePager check)"
    by (rule makePager_keeps)
  have ok: "walk_ok (view repo) (\<lambda>c. True) (\<lambda>vs res. length res + snd vs \<le> n)
      (walk depth (makePager check) relevance)"
    by (rule walk_ok_walk [OF cl keeps])
  have "length l + snd vs' \<le> n"
    using ok [unfolded walk_ok_def, rule_format, OF refl _ _ run] by simp
  then show ?thesis by simp
qed

lemma view_fresh: "commitCache repo = None \<Longrightarrow> view repo = load repo"
  by (rule ext) (simp add: view_def cache_entries_def)

lemma view_chain: "view chain_repo = (\<lambda>n. Inr (chain n))"
proof -
  have "load chain_repo n = Inr (chain n)" for n
    by (simp add: load_def chain_repo_def chain_def)
  moreover have "commitCache chain_repo = None" by (simp add: chain_repo_def)
  ultimately show ?thesis using view_fresh [of chain_repo] by auto
qed

lemma chain_walk:
  assumes chk: "\<forall>n. chk (chain n)"
  shows "view r = (\<lambda>n. Inr (chain n)) \<Longrightarrow> \<forall>x\<in>set res. commit_Id x < k \<Longrightarrow> count < depth \<Longrightarrow>
     \<exists>r'. walk depth (makePager (Some chk)) None r (0, count) res (chain k) =
            Some (Inr (True, (0, 0), res @ map chain [k..<k + count]), r')"
proof (induction count arbitrary: depth k res r)
  case 0
  then obtain d where depth: "depth = Suc d" by (cases depth) auto
  have fresh: "commit_Id (chain k) \<notin> set (map commit_Id res)"
    using 0(2) by (auto simp: chain_def)
  have "makePager (Some chk) (0, 0) (chain k) = (Stop, (0, 0))"
    using chk by (simp add: makePager_def)
  then show ?case
    using fresh unfolding depth by (simp add: relevant_def del: walk_parents.simps)
next
  case (Suc count)
  then obtain d where depth: "depth = Suc d" and d: "count < d" by (cases depth) auto
  have fresh: "commit_Id (chain k) \<notin> set (map commit_Id res)"
    using Suc.prems(2) by (auto simp: chain_def)
  have dec: "makePager (Some chk) (0, Suc count) (chain k) = (KeepAndContinue, (0, count))"
    using chk by (simp add: makePager_def)
  obtain r1 where g: "getCommit r (Suc k) = (view r (Suc k), r1)" and v1: "view r1 = view r"
    using getCommit_view [of r "Suc k"] by blast
  have par: "Parent r (chain k) 0 = (Inr (chain (Suc k)), r1)"
    using g Suc.prems(1) by (simp add: Parent_def ParentId_def chain_def)
  have ids: "\<forall>x\<in>set (res @ [chain k]). commit_Id x < Suc k"
    using Suc.prems(2) by (auto simp: chain_def less_SucI)
  have v1': "view r1 = (\<lambda>n. Inr (chain n))" using v1 Suc.prems(1) by simp
  obtain r' where call: "walk d (makePager (Some chk)) None r1 (0, count) (res @ [chain k]) (chain (Suc k)) =
      Some (Inr (True, (0, 0), (res @ [chain k]) @ map chain [Suc k..<Suc k + count]), r')"
    using Suc.IH [OF v1' ids d] by blast
  have pc: "0 < ParentCount (chain k)" by (simp add: ParentCount_def chain_def)
  have "walk_parents (walk d (makePager (Some chk)) None) r (0, count) (res @ [chain k]) (chain k) 0 =
      Some (Inr (True, (0, 0), (res @ [chain k]) @ map chain [Suc k..<Suc k + count]), r')"
    using pc par call by (subst walk_parents.simps) (simp del: walk_parents.simps)
  moreover have "(res @ [chain k]) @ map chain [Suc k..<Suc k + count] =
      res @ map chain [k..<k + Suc count]"
  proof -
    have "[k..<k + Suc count] = k # [Suc k..<Suc k + count]"
      by (subst upt_rec) simp
    then show ?thesis by simp
  qed
  ultimately show ?case
    using fresh dec unfolding depth by (simp add: relevant_def del: walk_parents.simps)
qed

lemma chain_search:
  "\<exists>repo'. searchCommits substring_searcher 101 chain_repo 0 ''fix'' =
     Some (Inr (map chain [0..<100]), repo')"
proof -
  obtain r1 where g: "getCommit chain_repo 0 = (view chain_repo 0, r1)"
    and v1: "view r1 = view chain_repo"
    using getCommit_view [of chain_repo 0] by blast
  have g': "getCommit chain_repo 0 = (Inr (chain 0), r1)"
    using g by (simp add: view_chain)
  have chk: "\<forall>n. (\<lambda>c. Contains (CommitMessage c) ''fix'') (chain n)"
    by (simp add: chain_def)
  have v1': "view r1 = (\<lambda>n. Inr (chain n))" using v1 view_chain by simp
  have "\<forall>x\<in>set ([] :: nat Commit list). commit_Id x < 0" by simp
  from chain_walk [OF chk v1' this, of 100 101]
  obtain r' where "walk 101 (makePager (Some (\<lambda>c. Contains (CommitMessage c) ''fix''))) None r1
      (0, 100) [] (chain 0) = Some (Inr (True, (0, 0), [] @ map chain [0..<0 + 100]), r')"
    by auto
  then have "searchCommits substring_searcher 101 chain_repo 0 ''fix'' =
      Some (Inr (map chain [0..<100]), r')"
    using g' by (simp add: searchCommits_def substring_searcher_def walkHistory_def
        walkFilteredHistory_def ItemsPerSearch_def)
  then show ?thesis by blast
qed

text \<open>
  C6: whatever the keyword and the history, a list that \<^verbatim>\<open>searchCommits\<close> returns has at
  most \<^verbatim>\<open>ItemsPerSearch\<close> = 100 elements: the pager keeps a commit only while its count
  of commits to take, which starts at 100, is not used up.
\<close>

theorem searchCommits_cap:
  assumes "searchCommits makeHistorySearcher depth repo oid keyword = Some (Inr l, repo')"
  shows "length l \<le> ItemsPerSearch \<and> ItemsPerSearch = 100"
proof -
  obtain commit r1 searcher where
    "walkHistory depth r1 commit (makePager (Some searcher)) (0, ItemsPerSearch) = Some (Inr l, repo')"
    using assms unfolding searchCommits_def
    by (auto split: prod.splits sum.splits)
  then have "length l \<le> ItemsPerSearch"
    unfolding walkHistory_def by (rule walkFilteredHistory_bound)
  then show ?thesis by (simp add: ItemsPerSearch_def)
qed

theorem searchCommits_cap_witness:
  "\<exists>repo'. searchCommits substring_searcher 101 chain_repo 0 ''fix'' =
       Some (Inr (map chain [0..<100]), repo')
     \<and> length (map chain [0..<100]) \<le> ItemsPerSearch"
proof -
  obtain repo' where run: "searchCommits substring_searcher 101 chain_repo 0 ''fix'' =
      Some (Inr (map chain [0..<100]), repo')"
    using chain_search by blast
  then show ?thesis
    using searchCommits_cap [OF run] by blast
qed


subsection \<open>Properties of getCommitOfRelPath\<close>

lemma walk_parents_unchanged:
  assumes call: "\<forall>repo p d. view repo = vw \<longrightarrow> p \<in> set (commit_parents commit) \<longrightarrow> vw p = Inr d \<longrightarrow>
      (\<exists>repo'. call repo vs [] d = Some (Inr (False, vs, []), repo') \<and> view repo' = vw)"
    and loadable: "\<forall>p\<in>set (commit_parents commit). \<exists>d. vw p = Inr d"
  shows "view repo = vw \<Longrightarrow>
         \<exists>repo'. walk_parents call repo vs [] commit i = Some (Inr (False, vs, []), repo') \<and> view repo' = vw"
proof (induction "ParentCount commit - i" arbitrary: i repo)
  case 0
  then have "\<not> i < ParentCount commit" by simp
  then have "walk_parents call repo vs [] commit i = Some (Inr (False, vs, []), repo)"
    by (subst walk_parents.simps) simp
  then show ?case using 0 by simp
next
  case (Suc n)
  then have lt: "i < ParentCount commit" by simp
  let ?p = "commit_parents commit ! i"
  have pin: "?p \<in> set (commit_parents commit)"
    using lt by (simp add: ParentCount_def)
  obtain d where d: "vw ?p = Inr d" using loadable pin by blast
  obtain r1 where g: "getCommit repo ?p = (view repo ?p, r1)" and v1: "view r1 = view repo"
    using getCommit_view [of repo ?p] by blast
  have par: "Parent repo commit i = (Inr d, r1)"
    using lt g d Suc.prems by (simp add: Parent_def ParentId_def ParentCount_def)
  have v1': "view r1 = vw" using v1 Suc.prems by simp
  obtain r2 where c: "call r1 vs [] d = Some (Inr (False, vs, []), r2)" and v2: "view r2 = vw"
    using call [rule_format, OF v1' pin d] by blast
  have unfold: "walk_parents call repo vs [] commit i = walk_parents call r2 vs [] commit (Suc i)"
    using lt par c by (subst walk_parents.simps) (simp del: walk_parents.simps)
  have n: "n = ParentCount commit - Suc i" using Suc.hyps(2) by simp
  show ?case
    unfolding unfold by (rule Suc.hyps(1) [OF n v2])
qed

lemma walk_unchanged:
  assumes loadable: "\<forall>c p. ancestor vw start c \<longrightarrow> p \<in> set (commit_parents c) \<longrightarrow> (\<exists>d. vw p = Inr d)"
    and acyclic: "\<forall>c p d. ancestor vw start c \<longrightarrow> p \<in> set (commit_parents c) \<longrightarrow> vw p = Inr d \<longrightarrow>
        rank d < rank c"
    and unchanged: "\<forall>c. ancestor vw start c \<longrightarrow> \<not> changed c"
  shows "view repo = vw \<Longrightarrow> ancestor vw start c \<Longrightarrow> rank c < depth \<Longrightarrow>
         \<exists>repo'. walk depth visit (Some changed) repo vs [] c = Some (Inr (False, vs, []), repo')
                \<and> view repo' = vw"
proof (induction depth arbitrary: repo c)
  case 0
  then show ?case by simp
next
  case (Suc depth)
  have irrelevant: "\<not> relevant (Some changed) c"
    using unchanged Suc.prems(2) by (simp add: relevant_def)
  have call: "\<forall>repo p d. view repo = vw \<longrightarrow> p \<in> set (commit_parents c) \<longrightarrow> vw p = Inr d \<longrightarrow>
      (\<exists>repo'. walk depth visit (Some changed) repo vs [] d = Some (Inr (False, vs, []), repo')
             \<and> view repo' = vw)"
  proof (intro allI impI)
    fix repo p d
    assume v: "view repo = vw" and p: "p \<in> set (commit_parents c)" and d: "vw p = Inr d"
    have anc: "ancestor vw start d"
      using Suc.prems(2) p d by (rule ancestor_parent)
    have "rank d < rank c" using acyclic Suc.prems(2) p d by blast
    then have "rank d < depth" using Suc.prems(3) by simp
    then show "\<exists>repo'. walk depth visit (Some changed) repo vs [] d = Some (Inr (False, vs, []), repo')
        \<and> view repo' = vw"
      using Suc.IH [OF v anc] by blast
  qed
  have ld: "\<forall>p\<in>set (commit_parents c). \<exists>d. vw p = Inr d"
    using loadable Suc.prems(2) by blast
  have "walk (Suc depth) visit (Some changed) repo vs [] c =
      walk_parents (walk depth visit (Some changed)) repo vs [] c 0"
    using irrelevant by (simp del: walk_parents.simps)
  moreover have "\<exists>repo'. walk_parents (walk depth visit (Some changed)) repo vs [] c 0 =
      Some (Inr (False, vs, []), repo') \<and> view repo' = vw"
    by (rule walk_parents_unchanged [where call = "walk depth visit (Some changed)" and vw = vw])
      (use call ld Suc.prems(1) in simp_all)
  ultimately show ?case by simp
qed

lemma makePager_empty:
  "visit_keeps (\<lambda>c. \<not> changed c) (Some changed) (\<lambda>vs res. res = []) visit"
  by (simp add: visit_keeps_def relevant_def)

lemma ancestor_keeps:
  assumes "\<forall>c. ancestor vw start c \<longrightarrow> \<not> changed c"
  shows "visit_keeps (ancestor vw start) (Some changed) (\<lambda>vs res. res = []) visit"
  using assms by (simp add: visit_keeps_def relevant_def)

lemma ancestor_parents_in: "parents_in vw (ancestor vw start)"
  unfolding parents_in_def by (blast intro: ancestor_parent)

lemma getCommitOfRelPath_run:
  assumes "view repo oid = Inr start"
  shows "\<exists>r1. view r1 = view repo \<and>
     getCommitOfRelPath makePathChecker makePathComparator depth repo oid path =
       (case walkFilteredHistory depth r1 start (makePager (Some (makePathChecker path))) (0, 1)
               (Some (makePathComparator path)) of
          None \<Rightarrow> None
        | Some (Inl err, repo'') \<Rightarrow> Some (Inl err, repo'')
        | Some (Inr res, repo'') \<Rightarrow>
            (case res of
               [] \<Rightarrow> Some (Inr None, repo'')
             | c # cs \<Rightarrow> Some (Inr (Some c), repo'')))"
proof -
  obtain r1 where g: "getCommit repo oid = (view repo oid, r1)" and v1: "view r1 = view repo"
    using getCommit_view [of repo oid] by blast
  then have "getCommit repo oid = (Inr start, r1)" using assms by simp
  then show ?thesis using v1 by (auto simp: getCommitOfRelPath_def)
qed

lemma view_history: "view history_repo = load history_repo"
  by (rule view_fresh) (simp add: history_repo_def repo_of_def)

lemma ancestors_M:
  "ancestor (load history_repo) commit_M c \<Longrightarrow> c \<in> {commit_M, commit_B, commit_A, commit_R}"
proof (induction rule: ancestor.induct)
  case ancestor_start
  then show ?case by simp
next
  case (ancestor_parent c p d)
  then have "p \<in> {''B'', ''A'', ''R''}"
    by (auto simp: commit_M_def commit_B_def commit_A_def commit_R_def)
  moreover have "load history_repo p = Inr d" by (rule ancestor_parent.hyps(3))
  ultimately show ?case
    using load_history by auto
qed

text \<open>
  C8, as stated, fails when the commit of the identifier cannot be fetched: no commit is
  walked, so none changed the path, and the result is the error of \<^verbatim>\<open>getCommit\<close> (lines 385
  to 388), not a nil commit with a nil error.
\<close>

theorem getCommitOfRelPath_missing_counterexample:
  "map_option fst (getCommitOfRelPath any_path never_changed 5 empty_repo 0 ''README'') =
     Some (Inl (ErrExternal 1))"
  by (simp add: getCommitOfRelPath_def getCommit_def getCommit_miss_def log_io_def empty_repo_def
      Let_def)

text \<open>
  C8, amended: if the commit of the identifier can be fetched, every parent named in its
  ancestry can be fetched, the ancestry has no cycle (a rank decreases from every commit
  to its parents) and no commit of the ancestry changed the path, then, once the rank of
  the start is below the bound on nested calls, \<^verbatim>\<open>getCommitOfRelPath\<close> returns a nil commit
  and a nil error. Whenever it returns without an error and no commit of the ancestry
  changed the path, what it returns is the nil commit. When the commit of the identifier
  cannot be fetched, it returns that error.
\<close>

theorem getCommitOfRelPath_none:
  "(view repo oid = Inr start
      \<and> (\<forall>c p. ancestor (view repo) start c \<longrightarrow> p \<in> set (commit_parents c) \<longrightarrow>
            (\<exists>d. view repo p = Inr d))
      \<and> (\<forall>c p d. ancestor (view repo) start c \<longrightarrow> p \<in> set (commit_parents c) \<longrightarrow>
            view repo p = Inr d \<longrightarrow> rank d < (rank c :: nat))
      \<and> (\<forall>c. ancestor (view repo) start c \<longrightarrow> \<not> makePathComparator path c)
      \<and> rank start < depth \<longrightarrow>
    (\<exists>repo'. getCommitOfRelPath makePathChecker makePathComparator depth repo oid path =
       Some (Inr None, repo')))
   \<and> (view repo oid = Inr start
      \<and> (\<forall>c. ancestor (view repo) start c \<longrightarrow> \<not> makePathComparator path c)
      \<and> getCommitOfRelPath makePathChecker makePathComparator depth repo oid path =
          Some (Inr found, repo'') \<longrightarrow>
    found = None)
   \<and> (view repo oid = Inl e \<longrightarrow>
    (\<exists>repo'. getCommitOfRelPath makePathChecker makePathComparator depth repo oid path =
       Some (Inl e, repo')))"
proof -
  let ?pager = "makePager (Some (makePathChecker path))"
  let ?rel = "Some (makePathComparator path)"
  have total: "\<exists>repo'. getCommitOfRelPath makePathChecker makePathComparator depth repo oid path =
       Some (Inr None, repo')"
    if start: "view repo oid = Inr start"
      and loadable: "\<forall>c p. ancestor (view repo) start c \<longrightarrow> p \<in> set (commit_parents c) \<longrightarrow>
            (\<exists>d. view repo p = Inr d)"
      and acyclic: "\<forall>c p d. ancestor (view repo) start c \<longrightarrow> p \<in> set (commit_parents c) \<longrightarrow>
            view repo p = Inr d \<longrightarrow> rank d < rank c"
      and unchanged: "\<forall>c. ancestor (view repo) start c \<longrightarrow> \<not> makePathComparator path c"
      and depth: "rank start < depth"
  proof -
    obtain r1 where v1: "view r1 = view repo"
      and run: "getCommitOfRelPath makePathChecker makePathComparator depth repo oid path =
       (case walkFilteredHistory depth r1 start ?pager (0, 1) ?rel of
          None \<Rightarrow> None
        | Some (Inl err, repo'') \<Rightarrow> Some (Inl err, repo'')
        | Some (Inr res, repo'') \<Rightarrow>
            (case res of
               [] \<Rightarrow> Some (Inr None, repo'')
             | c # cs \<Rightarrow> Some (Inr (Some c), repo'')))"
      using getCommitOfRelPath_run [OF start] by blast
    obtain r2 where "walk depth ?pager ?rel r1 (0, 1) [] start = Some (Inr (False, (0, 1), []), r2)"
      using walk_unchanged [where visit = ?pager and vs = "(0, 1)",
          OF loadable acyclic unchanged v1 ancestor_start depth]
      by (elim exE conjE)
    then have "walkFilteredHistory depth r1 start ?pager (0, 1) ?rel = Some (Inr [], r2)"
      by (simp add: walkFilteredHistory_def)
    then show ?thesis using run by simp
  qed
  have partial: "found = None"
    if start: "view repo oid = Inr start"
      and unchanged: "\<forall>c. ancestor (view repo) start c \<longrightarrow> \<not> makePathComparator path c"
      and ret: "getCommitOfRelPath makePathChecker makePathComparator depth repo oid path =
          Some (Inr found, repo'')"
  proof -
    obtain r1 where v1: "view r1 = view repo"
      and run: "getCommitOfRelPath makePathChecker makePathComparator depth repo oid path =
       (case walkFilteredHistory depth r1 start ?pager (0, 1) ?rel of
          None \<Rightarrow> None
        | Some (Inl err, repo'') \<Rightarrow> Some (Inl err, repo'')
        | Some (Inr res, repo'') \<Rightarrow>
            (case res of
               [] \<Rightarrow> Some (Inr None, repo'')
             | c # cs \<Rightarrow> Some (Inr (Some c), repo'')))"
      using getCommitOfRelPath_run [OF start] by blast
    show ?thesis
    proof (cases "walk depth ?pager ?rel r1 (0, 1) [] start")
      case None
      then show ?thesis using ret run by (simp add: walkFilteredHistory_def)
    next
      case (Some out)
      obtain x r2 where out: "out = (x, r2)" by (cases out)
      show ?thesis
      proof (cases x)
        case (Inl err)
        then show ?thesis using ret run Some out by (simp add: walkFilteredHistory_def)
      next
        case (Inr y)
        obtain st vs res where y: "y = (st, vs, res)" by (cases y)
        have w: "walk depth ?pager ?rel r1 (0, 1) [] start = Some (Inr (st, vs, res), r2)"
          using Some out Inr y by simp
        have ok: "walk_ok (view repo) (ancestor (view repo) start) (\<lambda>vs res. res = [])
            (walk depth ?pager ?rel)"
          by (rule walk_ok_walk [OF ancestor_parents_in ancestor_keeps [OF unchanged]])
        have "res = []"
          using ok [unfolded walk_ok_def, rule_format, OF v1 ancestor_start _ w] by simp
        then show ?thesis using ret run w by (simp add: walkFilteredHistory_def)
      qed
    qed
  qed
  have failed: "\<exists>repo'. getCommitOfRelPath makePathChecker makePathComparator depth repo oid path =
       Some (Inl e, repo')"
    if "view repo oid = Inl e"
  proof -
    obtain r1 where "getCommit repo oid = (view repo oid, r1)"
      using getCommit_view [of repo oid] by blast
    then show ?thesis using that by (simp add: getCommitOfRelPath_def)
  qed
  show ?thesis using total partial failed by blast
qed

theorem getCommitOfRelPath_none_witness:
  "(\<exists>repo'. getCommitOfRelPath any_path never_changed 41 history_repo ''M'' ''README'' =
      Some (Inr None, repo'))
   \<and> (\<exists>repo'. getCommitOfRelPath any_path never_changed 5 empty_repo 0 ''README'' =
      Some (Inl (ErrExternal 1), repo'))"
proof -
  have start: "view history_repo ''M'' = Inr commit_M"
    by (simp add: view_history load_history)
  have anc: "c \<in> {commit_M, commit_B, commit_A, commit_R}"
    if "ancestor (view history_repo) commit_M c" for c
    using that ancestors_M by (simp add: view_history)
  have loadable: "\<forall>c p. ancestor (view history_repo) commit_M c \<longrightarrow> p \<in> set (commit_parents c) \<longrightarrow>
      (\<exists>d. view history_repo p = Inr d)"
  proof (intro allI impI)
    fix c p assume "ancestor (view history_repo) commit_M c" and p: "p \<in> set (commit_parents c)"
    then have "c \<in> {commit_M, commit_B, commit_A, commit_R}" using anc by blast
    then have "p \<in> {''B'', ''A'', ''R''}"
      using p by (auto simp: commit_M_def commit_B_def commit_A_def commit_R_def)
    then show "\<exists>d. view history_repo p = Inr d"
      using load_history by (auto simp: view_history)
  qed
  have acyclic: "\<forall>c p d. ancestor (view history_repo) commit_M c \<longrightarrow> p \<in> set (commit_parents c) \<longrightarrow>
      view history_repo p = Inr d \<longrightarrow> age d < age c"
  proof (intro allI impI)
    fix c p d assume "ancestor (view history_repo) commit_M c" and p: "p \<in> set (commit_parents c)"
      and d: "view history_repo p = Inr d"
    then have "c \<in> {commit_M, commit_B, commit_A, commit_R}" using anc by blast
    then have "(p, age c) \<in> {(''B'', 40), (''A'', 40), (''R'', 30), (''R'', 20)}"
      using p by (auto simp: age_def commit_M_def commit_B_def commit_A_def commit_R_def)
    then show "age d < age c"
      using d load_history
      by (auto simp: view_history age_def commit_B_def commit_A_def commit_R_def)
  qed
  have unchanged: "\<forall>c. ancestor (view history_repo) commit_M c \<longrightarrow> \<not> never_changed ''README'' c"
    by (simp add: never_changed_def)
  have depth: "age commit_M < 41" by (simp add: age_def commit_M_def)
  have missing: "view empty_repo 0 = Inl (ErrExternal 1)"
    by (simp add: view_def cache_entries_def load_def empty_repo_def)
  have one: "\<exists>repo'. getCommitOfRelPath any_path never_changed 41 history_repo ''M'' ''README'' =
      Some (Inr None, repo')"
    using getCommitOfRelPath_none [of history_repo "''M''" commit_M age never_changed "''README''" 41
        any_path] start loadable acyclic unchanged depth
    by blast
  have two: "\<exists>repo'. getCommitOfRelPath any_path never_changed 5 empty_repo 0 ''README'' =
      Some (Inl (ErrExternal 1), repo')"
    using getCommitOfRelPath_none [of empty_repo 0 _ _ never_changed "''README''" 5 any_path _ _
        "ErrExternal 1"] missing
    by blast
  show ?thesis using one two by blast
qed

end
